theory Spec2Isabelle
  imports Complex_Main "HOL-Library.Log_Nat" "HOL-Library.Word"
begin

section \<open>Task objects, the logger and the scheduler state\<close>

text \<open>
  A reference to a Task object is its position in the heap of Task objects.  Python never
  holds a reference to an object that does not exist; the theorems below therefore ask
  that every reference met is a position of the heap (\<open>wf_heap\<close>).
\<close>

type_synonym tid = nat

text \<open>
  Modelled from the spec: the class \<open>Task\<close> (module \<open>task\<close>) is imported by
  \<open>regression_pipeline.py\<close> but is not among the source files.  Its attributes and the
  methods \<open>is_terminated\<close>, \<open>is_waiting\<close>, \<open>set_terminated\<close>,
  \<open>set_output\<close>, \<open>add_input_dependencies\<close> and \<open>execute\<close> follow sections 3 and
  4.1 of the specification.
\<close>

record 'o task =
  name :: string
  parents :: "tid list"
  children :: "tid list"
  terminated :: bool
  task_output :: "'o option"
  operation :: "'o option list \<Rightarrow> 'o"

text \<open>Modelled from the spec: \<open>is_terminated()\<close> reads the completion flag.\<close>

definition is_terminated :: "'o task list \<Rightarrow> tid \<Rightarrow> bool" where
  "is_terminated h t = terminated (h ! t)"

text \<open>
  Modelled from the spec: \<open>is_waiting()\<close> is true iff at least one parent is not yet
  terminated.
\<close>

definition is_waiting :: "'o task list \<Rightarrow> tid \<Rightarrow> bool" where
  "is_waiting h t = list_ex (\<lambda>p. \<not> terminated (h ! p)) (parents (h ! t))"

text \<open>Modelled from the spec: \<open>set_terminated(bool)\<close> writes the completion flag.\<close>

definition set_terminated :: "'o task list \<Rightarrow> tid \<Rightarrow> bool \<Rightarrow> 'o task list" where
  "set_terminated h t b = h[t := (h ! t)\<lparr>terminated := b\<rparr>]"

text \<open>Modelled from the spec: \<open>set_output(value)\<close> stores the value as the task's output.\<close>

definition set_output :: "'o task list \<Rightarrow> tid \<Rightarrow> 'o \<Rightarrow> 'o task list" where
  "set_output h t v = h[t := (h ! t)\<lparr>task_output := Some v\<rparr>]"

text \<open>
  Modelled from the spec: \<open>add_input_dependencies(other)\<close> registers \<open>other\<close> as a
  parent of this task and this task as a child of \<open>other\<close>; registering the same pair
  again changes nothing.
\<close>

definition add_input_dependencies :: "'o task list \<Rightarrow> tid \<Rightarrow> tid \<Rightarrow> 'o task list" where
  "add_input_dependencies h t other =
     (let h1 = (if other \<in> set (parents (h ! t)) then h
                else h[t := (h ! t)\<lparr>parents := parents (h ! t) @ [other]\<rparr>])
      in if t \<in> set (children (h1 ! other)) then h1
         else h1[other := (h1 ! other)\<lparr>children := children (h1 ! other) @ [t]\<rparr>])"

text \<open>
  Modelled from the spec: \<open>execute()\<close> gathers the outputs of all parents, in the order
  of their registration, invokes the operation on them and stores the result as this
  task's output; it leaves the completion flag alone.
\<close>

definition execute :: "'o task list \<Rightarrow> tid \<Rightarrow> 'o task list" where
  "execute h t =
     h[t := (h ! t)\<lparr>task_output :=
        Some (operation (h ! t) (map (\<lambda>p. task_output (h ! p)) (parents (h ! t))))\<rparr>]"

text \<open>
  Modelled from the spec: the logger class is not among the source files either.  It is
  the reporting utility of section 1: each call appends one report and returns to its
  caller.  \<open>Executing index name\<close> stands for the formatted message
  \<open>"{}. Executing task: {}".format(index, task.name)\<close>.
\<close>

datatype report =
    Error string
  | Warning string
  | Info string
  | Executing nat string
  | Validated

text \<open>The exceptions the modelled code raises; \<open>Exception\<close> carries its message.\<close>

datatype py_error =
    AttributeError
  | UnboundLocalError
  | IndexError
  | KeyError
  | ValueError
  | ZeroDivisionError
  | TypeError
  | OverflowError
  | Exception string

text \<open>The local variables of \<open>Pipeline.fit\<close> together with what the loop mutates.\<close>

record 'o fit_state =
  heap :: "'o task list"
  tasks :: "tid list"
  queue :: "tid list"
  count :: int
  logged :: "report list"

text \<open>
  One iteration of \<open>while queue:\<close>.  \<open>queue.pop()\<close> removes and returns the last
  element of the list; \<open>[task] + queue\<close> and \<open>task.children + queue\<close> add at the
  first position.
\<close>

definition fit_step :: "'o fit_state \<Rightarrow> 'o fit_state" where
  "fit_step st =
     (let task = last (queue st); q = butlast (queue st) in
      if \<not> is_terminated (heap st) task \<and> is_waiting (heap st) task then
        (if count st = 0 then
           st\<lparr>queue := q,
              logged := logged st @ [Error ''Loop detected... Please check tasks dependencies.'']\<rparr>
         else st\<lparr>queue := [task] @ q, count := count st - 1\<rparr>)
      else if \<not> is_terminated (heap st) task then
        st\<lparr>heap := set_terminated (heap st) task True,
           tasks := tasks st @ [task],
           queue := children (heap st ! task) @ q,
           count := count st + int (length (children (heap st ! task)))\<rparr>
      else st\<lparr>queue := q\<rparr>)"

partial_function (option) fit_loop :: "'o fit_state \<Rightarrow> 'o fit_state option" where
  "fit_loop st = (if queue st = [] then Some st else fit_loop (fit_step st))"

declare fit_loop.simps [code]

definition reset_tasks :: "'o task list \<Rightarrow> tid list \<Rightarrow> 'o task list" where
  "reset_tasks h ts = foldl (\<lambda>h' t. set_terminated h' t False) h ts"

text \<open>
  The Pipeline object (\<open>self.tasks\<close>, absent until \<open>fit\<close> assigns it, since
  \<open>__init__\<close> assigns nothing), the heap of Task objects and the reports written so far.
\<close>

record 'o world =
  w_heap :: "'o task list"
  self_tasks :: "tid list option"
  w_logged :: "report list"

definition fit :: "tid \<Rightarrow> 'o world \<Rightarrow> 'o world option" where
  "fit task w =
     (case fit_loop \<lparr>heap = w_heap w, tasks = [], queue = [task], count = 1,
                      logged = w_logged w\<rparr> of
        None \<Rightarrow> None
      | Some st \<Rightarrow>
          Some \<lparr>w_heap = reset_tasks (heap st) (tasks st),
                self_tasks = Some (tasks st),
                w_logged = logged st @ [Info ''The pipeline was fitted without error.'']\<rparr>)"

text \<open>
  The \<open>for index, task in enumerate(self.tasks)\<close> loop of \<open>compute\<close>.  The last component
  is the local variable \<open>task\<close>, unbound (\<open>None\<close>) until the loop binds it.
\<close>

fun compute_loop ::
  "'o task list \<Rightarrow> report list \<Rightarrow> nat \<Rightarrow> tid list \<Rightarrow> tid option \<Rightarrow>
   'o task list \<times> report list \<times> tid option" where
  "compute_loop h lg index [] task = (h, lg, task)"
| "compute_loop h lg index (t # ts) task =
     compute_loop (execute h t) (lg @ [Executing index (name (h ! t)), Validated])
       (Suc index) ts (Some t)"

text \<open>
  \<open>Task()\<close> allocates a new object at the end of the heap; \<open>op0\<close> is the operation a
  Task gets when none is given.
\<close>

definition new_task :: "('o option list \<Rightarrow> 'o) \<Rightarrow> 'o task" where
  "new_task op0 =
     \<lparr>name = [], parents = [], children = [], terminated = False, task_output = None,
      operation = op0\<rparr>"

definition stage_inputs ::
  "'o \<Rightarrow> ('o option list \<Rightarrow> 'o) \<Rightarrow> 'o task list \<Rightarrow> tid \<Rightarrow> 'o task list" where
  "stage_inputs inputs op0 h first =
     (let empty_task = length h;
          h1 = h @ [new_task op0];
          h2 = set_output h1 empty_task inputs;
          h3 = set_terminated h2 empty_task True
      in add_input_dependencies h3 first empty_task)"

definition compute ::
  "'o \<Rightarrow> ('o option list \<Rightarrow> 'o) \<Rightarrow> 'o world \<Rightarrow> 'o world \<times> (py_error + 'o option)" where
  "compute inputs op0 w =
     (case self_tasks w of
        None \<Rightarrow> (w, Inl AttributeError)
      | Some ts \<Rightarrow>
          (let (h, lg, task) =
                 (if ts = [] then
                    (w_heap w,
                     w_logged w @ [Warning ''Pipeline not fitted... Nothing to compute.''],
                     None)
                  else compute_loop (stage_inputs inputs op0 (w_heap w) (hd ts))
                         (w_logged w) 0 ts None);
               w' = w\<lparr>w_heap := h,
                       w_logged := lg @ [Info ''The pipeline was executed without error.'']\<rparr>
           in case task of
                None \<Rightarrow> (w', Inl UnboundLocalError)
              | Some t \<Rightarrow> (w', Inr (task_output (h ! t)))))"

subsection \<open>Notions for the claims about the scheduler\<close>

text \<open>
  The child links as a relation, the tasks reachable from a task through them, heaps
  whose parent and child links stay inside the heap and mirror each other, and heaps in
  which no task is terminated.
\<close>

definition child_rel :: "'o task list \<Rightarrow> (tid \<times> tid) set" where
  "child_rel h = {(p, c). p < length h \<and> c \<in> set (children (h ! p))}"

definition reachable :: "'o task list \<Rightarrow> tid \<Rightarrow> tid set" where
  "reachable h rt = (child_rel h)\<^sup>* `` {rt}"

definition wf_heap :: "'o task list \<Rightarrow> bool" where
  "wf_heap h \<longleftrightarrow>
     (\<forall>t<length h.
        (\<forall>p\<in>set (parents (h ! t)). p < length h \<and> t \<in> set (children (h ! p))) \<and>
        (\<forall>c\<in>set (children (h ! t)). c < length h \<and> t \<in> set (parents (h ! c))))"

definition parents_reachable :: "'o task list \<Rightarrow> tid \<Rightarrow> bool" where
  "parents_reachable h rt \<longleftrightarrow>
     (\<forall>c\<in>reachable h rt. \<forall>p\<in>set (parents (h ! c)). p \<in> reachable h rt)"

definition fresh :: "'o task list \<Rightarrow> bool" where
  "fresh h \<longleftrightarrow> (\<forall>t<length h. \<not> terminated (h ! t))"

text \<open>
  Invariants of the work-list loop, relative to the heap \<open>h\<close> that \<open>fit\<close> started
  from, and the measure that every iteration decreases.
\<close>

definition fit_inv :: "'o task list \<Rightarrow> 'o fit_state \<Rightarrow> bool" where
  "fit_inv h st \<longleftrightarrow>
     length (heap st) = length h \<and>
     (\<forall>i<length h. heap st ! i = (h ! i)\<lparr>terminated := i \<in> set (tasks st)\<rparr>) \<and>
     (\<forall>t\<in>set (queue st). t < length h) \<and>
     (\<forall>t\<in>set (tasks st). t < length h) \<and>
     0 \<le> count st"

definition fit_measure :: "'o fit_state \<Rightarrow> nat" where
  "fit_measure st =
     sum_list (map (\<lambda>t. if terminated t then 0 else 2 * length (children t) + 1) (heap st))
     + nat (count st) + length (queue st)"

definition after_parents :: "'o task list \<Rightarrow> tid list \<Rightarrow> bool" where
  "after_parents h order \<longleftrightarrow>
     (\<forall>i<length order. \<forall>p\<in>set (parents (h ! (order ! i))). p \<in> set (take i order))"

definition inv_order :: "'o task list \<Rightarrow> 'o fit_state \<Rightarrow> bool" where
  "inv_order h st \<longleftrightarrow> distinct (tasks st) \<and> after_parents h (tasks st)"

definition inv_reach :: "'o task list \<Rightarrow> tid \<Rightarrow> 'o fit_state \<Rightarrow> bool" where
  "inv_reach h rt st \<longleftrightarrow> (\<forall>t\<in>set (queue st) \<union> set (tasks st). t \<in> reachable h rt)"

definition inv_pending :: "'o task list \<Rightarrow> tid \<Rightarrow> 'o fit_state \<Rightarrow> bool" where
  "inv_pending h rt st \<longleftrightarrow>
     (\<forall>p\<in>set (tasks st). \<forall>c\<in>set (children (h ! p)).
        c \<in> set (queue st) \<union> set (tasks st) \<or> (\<exists>q\<in>set (parents (h ! c)). q \<notin> set (tasks st))) \<and>
     (rt \<in> set (queue st) \<union> set (tasks st) \<or> (\<exists>q\<in>set (parents (h ! rt)). q \<notin> set (tasks st)))"

fun executing_reports :: "'o task list \<Rightarrow> nat \<Rightarrow> tid list \<Rightarrow> report list" where
  "executing_reports h k [] = []"
| "executing_reports h k (t # ts) =
     Executing k (name (h ! t)) # Validated # executing_reports h (Suc k) ts"

definition precedes :: "tid list \<Rightarrow> tid \<Rightarrow> tid \<Rightarrow> bool" where
  "precedes ts a b \<longleftrightarrow> (\<exists>i j. i < j \<and> j < length ts \<and> ts ! i = a \<and> ts ! j = b)"

definition inv_cycle :: "report list \<Rightarrow> 'o task list \<Rightarrow> tid \<Rightarrow> 'o fit_state \<Rightarrow> bool" where
  "inv_cycle lg0 h rt st \<longleftrightarrow>
     (\<exists>new. logged st = lg0 @ new \<and>
        (Error ''Loop detected... Please check tasks dependencies.'' \<in> set new \<or>
         (rt \<in> set (queue st) \<union> set (tasks st) \<and>
          (\<forall>p\<in>set (tasks st). \<forall>c\<in>set (children (h ! p)).
              c \<in> set (queue st) \<union> set (tasks st)))))"

definition inv_fifo :: "tid \<Rightarrow> tid \<Rightarrow> 'o task list \<Rightarrow> 'o fit_state \<Rightarrow> bool" where
  "inv_fifo a b h st \<longleftrightarrow>
     (\<exists>xs ys. tasks st = xs @ a # ys \<and> b \<notin> set xs) \<or>
     (a \<notin> set (tasks st) \<and> b \<notin> set (tasks st) \<and>
      (\<forall>p\<in>set (parents (h ! a)). p \<in> set (tasks st)) \<and>
      (\<exists>q1 q2. queue st = q1 @ a # q2 \<and> b \<notin> set q2))"

text \<open>
  What the loop of \<open>fit\<close> keeps whatever the flags of the tasks are at the start: the
  heap keeps its size and every task its children, the queue holds tasks of the heap,
  and the budget is not negative.
\<close>

definition loop_inv :: "'o task list \<Rightarrow> 'o fit_state \<Rightarrow> bool" where
  "loop_inv h st \<longleftrightarrow>
     length (heap st) = length h \<and>
     (\<forall>i<length h. children (heap st ! i) = children (h ! i)) \<and>
     (\<forall>t\<in>set (queue st). t < length h) \<and>
     0 \<le> count st"

section \<open>The Transformer: arrays, files and library calls\<close>

subsection \<open>Floating-point numbers\<close>

text \<open>
  A float64 is a finite double, given by its value as a rational number, an infinity
  (\<open>Infty True\<close> is the positive one) or not-a-number; the two zeros are not told apart.
  \<open>binade x\<close> is the exponent \<open>e\<close> with \<open>2\<^sup>e \<le> |x| < 2\<^sup>e\<^sup>+\<^sup>1\<close>; the doubles around
  \<open>x\<close> are \<open>2\<close> to the power \<open>max e (-1022) - 52\<close> apart.  \<open>fl x\<close> is the double nearest
  to \<open>x\<close>, the one with the even mantissa when two are equally near, and an infinity when
  that double would reach \<open>2\<^sup>1\<^sup>0\<^sup>2\<^sup>4\<close>.  \<open>fadd\<close>, \<open>fmul\<close> and \<open>fdiv\<close> are the sum, the product
  and the quotient of IEEE 754: the exact result, rounded by \<open>fl\<close>.
\<close>

datatype pyfloat = NaN | Infty bool | Val rat

type_synonym vector = "pyfloat list"

definition binade :: "rat \<Rightarrow> int" where
  "binade x =
     (let (p, q) = quotient_of \<bar>x\<bar>; e = bitlen p - bitlen q
      in if 2 powi e \<le> \<bar>x\<bar> then e else e - 1)"

definition round_half_even :: "rat \<Rightarrow> int" where
  "round_half_even x =
     (let f = \<lfloor>x\<rfloor>; d = x - of_int f
      in if d < 1 / 2 then f else if 1 / 2 < d then f + 1 else if even f then f else f + 1)"

definition fl :: "rat \<Rightarrow> pyfloat" where
  "fl x =
     (if x = 0 then Val 0
      else let u = 2 powi (max (binade x) (- 1022) - 52);
               y = of_int (round_half_even (x / u)) * u
           in if 2 ^ 1024 \<le> \<bar>y\<bar> then Infty (0 < x) else Val y)"

fun fadd :: "pyfloat \<Rightarrow> pyfloat \<Rightarrow> pyfloat" where
  "fadd (Val a) (Val b) = fl (a + b)"
| "fadd (Val a) (Infty t) = Infty t"
| "fadd (Infty s) (Val b) = Infty s"
| "fadd (Infty s) (Infty t) = (if s = t then Infty s else NaN)"
| "fadd _ _ = NaN"

fun fmul :: "pyfloat \<Rightarrow> pyfloat \<Rightarrow> pyfloat" where
  "fmul (Val a) (Val b) = fl (a * b)"
| "fmul (Val a) (Infty t) = (if a = 0 then NaN else Infty (t = (0 < a)))"
| "fmul (Infty s) (Val b) = (if b = 0 then NaN else Infty (s = (0 < b)))"
| "fmul (Infty s) (Infty t) = Infty (s = t)"
| "fmul _ _ = NaN"

text \<open>The quotient by a zero is the one by the positive zero; Python raises before it divides.\<close>

fun fdiv :: "pyfloat \<Rightarrow> pyfloat \<Rightarrow> pyfloat" where
  "fdiv (Val a) (Val b) = (if b = 0 then (if a = 0 then NaN else Infty (0 < a)) else fl (a / b))"
| "fdiv (Val a) (Infty t) = Val 0"
| "fdiv (Infty s) (Val b) = Infty (s = (0 \<le> b))"
| "fdiv _ _ = NaN"

text \<open>
  A two-dimensional array of floats carries its number of columns, which numpy keeps also
  when the array has no rows.  Arrays of dtype int64 hold 64-bit words, whose sum wraps
  around.  An array is one- or two-dimensional, of floats or of integers.
\<close>

record matrix =
  ncols :: nat
  rows :: "vector list"

definition nrows :: "matrix \<Rightarrow> nat" where
  "nrows m = length (rows m)"

type_synonym int64 = "64 word"

record imatrix =
  icols :: nat
  irows :: "int64 list list"

datatype ndarray = Arr1 vector | Arr2 matrix | IntArr1 "int64 list" | IntArr2 imatrix

text \<open>The conversion of an int64 to float64, as numpy does it when it mixes the two.\<close>

definition float_of_int64 :: "int64 \<Rightarrow> pyfloat" where
  "float_of_int64 w = fl (of_int (sint w))"

text \<open>Sequencing of calls that may raise: the first exception ends the computation.\<close>

definition ebind :: "py_error + 'a \<Rightarrow> ('a \<Rightarrow> py_error + 'b) \<Rightarrow> py_error + 'b" where
  "ebind r f = (case r of Inl e \<Rightarrow> Inl e | Inr x \<Rightarrow> f x)"

fun traverse :: "('a \<Rightarrow> py_error + 'b) \<Rightarrow> 'a list \<Rightarrow> py_error + 'b list" where
  "traverse f [] = Inr []"
| "traverse f (x # xs) = ebind (f x) (\<lambda>y. ebind (traverse f xs) (\<lambda>ys. Inr (y # ys)))"

text \<open>Python list operations: \<open>xs[i]\<close> for \<open>i \<ge> 0\<close>, \<open>xs[-1]\<close>, \<open>xs[:i]\<close>, \<open>xs[i:]\<close>.\<close>

definition py_index :: "'a list \<Rightarrow> nat \<Rightarrow> py_error + 'a" where
  "py_index xs i = (if i < length xs then Inr (xs ! i) else Inl IndexError)"

definition py_last :: "'a list \<Rightarrow> py_error + 'a" where
  "py_last xs = (if xs = [] then Inl IndexError else Inr (last xs))"

definition py_slice_to :: "'a list \<Rightarrow> int \<Rightarrow> 'a list" where
  "py_slice_to xs i = take (nat (if i < 0 then max 0 (int (length xs) + i) else i)) xs"

definition py_slice_from :: "'a list \<Rightarrow> int \<Rightarrow> 'a list" where
  "py_slice_from xs i = drop (nat (if i < 0 then max 0 (int (length xs) + i) else i)) xs"

definition py_lookup :: "('k \<rightharpoonup> 'v) \<Rightarrow> 'k \<Rightarrow> py_error + 'v" where
  "py_lookup d k = (case d k of None \<Rightarrow> Inl KeyError | Some v \<Rightarrow> Inr v)"

text \<open>
  Python numbers: an integer of any size or a float.  \<open>py_float i\<close> is the conversion
  of an integer to a float, which rounds and raises OverflowError beyond the doubles.
  \<open>py_mul n x\<close> is \<open>n * x\<close> and \<open>py_truediv a x\<close> is \<open>a / x\<close>, for an integer \<open>n\<close>,
  a float \<open>a\<close> and a number \<open>x\<close>.
\<close>

datatype pynum = PyInt int | PyFloat pyfloat

definition py_float :: "int \<Rightarrow> py_error + pyfloat" where
  "py_float i = (case fl (of_int i) of Val v \<Rightarrow> Inr (Val v) | _ \<Rightarrow> Inl OverflowError)"

definition as_float :: "pynum \<Rightarrow> py_error + pyfloat" where
  "as_float x = (case x of PyInt i \<Rightarrow> py_float i | PyFloat f \<Rightarrow> Inr f)"

definition py_mul :: "int \<Rightarrow> pynum \<Rightarrow> py_error + pynum" where
  "py_mul n x =
     (case x of
        PyInt i \<Rightarrow> Inr (PyInt (n * i))
      | PyFloat f \<Rightarrow> ebind (py_float n) (\<lambda>a. Inr (PyFloat (fmul a f))))"

definition py_truediv :: "pyfloat \<Rightarrow> pynum \<Rightarrow> py_error + pyfloat" where
  "py_truediv a x =
     ebind (as_float x) (\<lambda>b. if b = Val 0 then Inl ZeroDivisionError else Inr (fdiv a b))"

text \<open>\<open>range(0, stop, step)\<close> for \<open>stop, step \<ge> 0\<close>.\<close>

definition py_range_step :: "nat \<Rightarrow> nat \<Rightarrow> py_error + nat list" where
  "py_range_step stop step =
     (if step = 0 then Inl ValueError
      else Inr (map (\<lambda>j. j * step) [0..<(stop + step - 1) div step]))"

text \<open>\<open>str(n)\<close> for an integer, as \<open>'run{}'.format(n)\<close> needs it.\<close>

definition digit_char :: "nat \<Rightarrow> char" where
  "digit_char d = ''0123456789'' ! d"

fun str_nat :: "nat \<Rightarrow> string" where
  "str_nat n = (if n < 10 then [digit_char n] else str_nat (n div 10) @ [digit_char (n mod 10)])"

declare str_nat.simps [simp del]

definition str_int :: "int \<Rightarrow> string" where
  "str_int i = (if i < 0 then CHR ''-'' # str_nat (nat (- i)) else str_nat (nat i))"

text \<open>
  \<open>os.path.join\<close> (posixpath): a component that starts with the separator replaces what
  came before; otherwise it is appended, after a separator unless the path so far is
  empty or ends with one.
\<close>

definition join_step :: "string \<Rightarrow> string \<Rightarrow> string" where
  "join_step path b =
     (if b \<noteq> [] \<and> hd b = CHR ''/'' then b
      else if path = [] \<or> last path = CHR ''/'' then path @ b
      else path @ ''/'' @ b)"

definition os_path_join :: "string \<Rightarrow> string list \<Rightarrow> string" where
  "os_path_join a ps = foldl join_step a ps"

text \<open>
  The files the code reads are csv files; a file that exists is given by the frame
  \<open>pd.read_csv\<close> returns for it: named columns of equal length, each of dtype int64 or
  float64 (a column without rows, of dtype object in pandas, is an empty float column
  here).
\<close>

datatype series = IntCol "int64 list" | FloatCol vector

type_synonym table = "(string \<times> series) list"

type_synonym filesystem = "string \<rightharpoonup> table"

definition os_path_exists :: "filesystem \<Rightarrow> string \<Rightarrow> bool" where
  "os_path_exists fs path = (fs path \<noteq> None)"

definition series_length :: "series \<Rightarrow> nat" where
  "series_length c = (case c of IntCol ws \<Rightarrow> length ws | FloatCol v \<Rightarrow> length v)"

definition series_floats :: "series \<Rightarrow> vector" where
  "series_floats c = (case c of IntCol ws \<Rightarrow> map float_of_int64 ws | FloatCol v \<Rightarrow> v)"

definition series_ints :: "series \<Rightarrow> int64 list" where
  "series_ints c = (case c of IntCol ws \<Rightarrow> ws | FloatCol v \<Rightarrow> [])"

definition is_int_series :: "series \<Rightarrow> bool" where
  "is_int_series c = (case c of IntCol ws \<Rightarrow> True | FloatCol v \<Rightarrow> False)"

text \<open>
  \<open>pd.read_csv(path)[name].values\<close>: the column of that name, with its dtype.
  \<open>pd.read_csv(path).values\<close>: the rows of the frame, of integers when every column is,
  of floats otherwise.
\<close>

definition csv_column :: "table \<Rightarrow> string \<Rightarrow> py_error + ndarray" where
  "csv_column t c =
     (case map_of t c of
        None \<Rightarrow> Inl KeyError
      | Some (IntCol ws) \<Rightarrow> Inr (IntArr1 ws)
      | Some (FloatCol v) \<Rightarrow> Inr (Arr1 v))"

definition csv_values :: "table \<Rightarrow> ndarray" where
  "csv_values t =
     (let n = (case t of [] \<Rightarrow> 0 | (nm, c) # cs \<Rightarrow> series_length c) in
      if t \<noteq> [] \<and> list_all (\<lambda>(nm, c). is_int_series c) t
      then IntArr2 \<lparr>icols = length t,
                     irows = map (\<lambda>i. map (\<lambda>(nm, c). series_ints c ! i) t) [0..<n]\<rparr>
      else Arr2 \<lparr>ncols = length t,
                  rows = map (\<lambda>i. map (\<lambda>(nm, c). series_floats c ! i) t) [0..<n]\<rparr>)"

subsection \<open>utils.fetch_offsets and utils.fetch_duration\<close>

definition offsets_file :: "string \<Rightarrow> string \<Rightarrow> string \<Rightarrow> char \<Rightarrow> string" where
  "offsets_file offset_path language offset_type index =
     os_path_join offset_path [language, offset_type @ ''_run'' @ [index] @ ''.csv'']"

definition fetch_offsets ::
  "filesystem \<Rightarrow> string \<Rightarrow> string \<Rightarrow> string \<Rightarrow> string \<Rightarrow> py_error + ndarray" where
  "fetch_offsets fs offset_type run_index offset_path language =
     ebind (py_last run_index) (\<lambda>index.
       let path = offsets_file offset_path language offset_type index in
       if \<not> os_path_exists fs path then
         Inl (Exception (''Please specify an offset file at: '' @ path))
       else csv_column (the (fs path)) ''offsets'')"

definition durations_file :: "string \<Rightarrow> string \<Rightarrow> char \<Rightarrow> string" where
  "durations_file duration_path duration_type index =
     os_path_join duration_path [''durations'', duration_type @ ''_run'' @ [index] @ ''.csv'']"

text \<open>\<open>default_size\<close> is a length: the one call of the source passes \<open>len(dataframe)\<close>.\<close>

definition fetch_duration ::
  "filesystem \<Rightarrow> string \<Rightarrow> string \<Rightarrow> string \<Rightarrow> nat \<Rightarrow> py_error + ndarray" where
  "fetch_duration fs duration_type run_index duration_path default_size =
     ebind (py_last run_index) (\<lambda>index.
       let path = durations_file duration_path duration_type index in
       if \<not> os_path_exists fs path then Inr (Arr1 (replicate default_size (Val 1)))
       else Inr (csv_values (the (fs path))))"

subsection \<open>numpy and pandas calls of the Transformer\<close>

text \<open>\<open>array[:, index]\<close> for a list of column positions.\<close>

definition select_columns :: "matrix \<Rightarrow> nat list \<Rightarrow> py_error + matrix" where
  "select_columns a index =
     (if \<exists>j\<in>set index. ncols a \<le> j then Inl IndexError
      else Inr \<lparr>ncols = length index, rows = map (\<lambda>r. map (\<lambda>j. r ! j) index) (rows a)\<rparr>)"

text \<open>\<open>dataframe.dropna(axis=0)\<close>: the rows without a missing value.\<close>

definition dropna :: "matrix \<Rightarrow> matrix" where
  "dropna d = d\<lparr>rows := filter (\<lambda>r. NaN \<notin> set r) (rows d)\<rparr>"

definition column :: "matrix \<Rightarrow> nat \<Rightarrow> vector" where
  "column d col = map (\<lambda>r. r ! col) (rows d)"

definition atleast_2d :: "ndarray \<Rightarrow> ndarray" where
  "atleast_2d a =
     (case a of
        Arr1 v \<Rightarrow> Arr2 \<lparr>ncols = length v, rows = [v]\<rparr>
      | IntArr1 ws \<Rightarrow> IntArr2 \<lparr>icols = length ws, irows = [ws]\<rparr>
      | _ \<Rightarrow> a)"

text \<open>Of an array: its last dimension, whether its dtype is int64, its rows as floats and as integers.\<close>

definition width :: "ndarray \<Rightarrow> nat" where
  "width a =
     (case a of Arr1 v \<Rightarrow> length v | Arr2 m \<Rightarrow> ncols m
      | IntArr1 ws \<Rightarrow> length ws | IntArr2 m \<Rightarrow> icols m)"

definition is_int_array :: "ndarray \<Rightarrow> bool" where
  "is_int_array a = (case a of IntArr1 ws \<Rightarrow> True | IntArr2 m \<Rightarrow> True | _ \<Rightarrow> False)"

definition float_rows :: "ndarray \<Rightarrow> vector list" where
  "float_rows a =
     (case a of Arr1 v \<Rightarrow> [v] | Arr2 m \<Rightarrow> rows m
      | IntArr1 ws \<Rightarrow> [map float_of_int64 ws]
      | IntArr2 m \<Rightarrow> map (map float_of_int64) (irows m))"

definition int_rows :: "ndarray \<Rightarrow> int64 list list" where
  "int_rows a = (case a of IntArr1 ws \<Rightarrow> [ws] | IntArr2 m \<Rightarrow> irows m | _ \<Rightarrow> [])"

text \<open>
  \<open>np.vstack\<close>: the arrays, each made two-dimensional, must agree in their second
  dimension; the result holds integers when every array does and floats otherwise.
\<close>

definition np_vstack :: "ndarray list \<Rightarrow> py_error + ndarray" where
  "np_vstack arrs =
     (case map atleast_2d arrs of
        [] \<Rightarrow> Inl ValueError
      | m # ms \<Rightarrow>
          if list_all (\<lambda>m'. width m' = width m) ms
          then (if list_all is_int_array (m # ms)
                then Inr (IntArr2 \<lparr>icols = width m, irows = concat (map int_rows (m # ms))\<rparr>)
                else Inr (Arr2 \<lparr>ncols = width m, rows = concat (map float_rows (m # ms))\<rparr>))
          else Inl ValueError)"

text \<open>
  \<open>array += x\<close> for a Python number \<open>x\<close>, as numpy 1 does it.  A float array takes
  the float sum of each element and \<open>x\<close>; an int64 array takes the wrapped sum with an
  integer \<open>x\<close> of the range of int64.  The sum of an int64 array and a float is a float
  array, which numpy refuses to write back into the int64 array (UFuncTypeError, a
  TypeError); an integer too large for the array is refused in the same way.
\<close>

definition map_floats :: "(pyfloat \<Rightarrow> pyfloat) \<Rightarrow> ndarray \<Rightarrow> ndarray" where
  "map_floats g a =
     (case a of
        Arr1 v \<Rightarrow> Arr1 (map g v)
      | Arr2 m \<Rightarrow> Arr2 (m\<lparr>rows := map (map g) (rows m)\<rparr>)
      | _ \<Rightarrow> a)"

definition map_ints :: "(int64 \<Rightarrow> int64) \<Rightarrow> ndarray \<Rightarrow> ndarray" where
  "map_ints g a =
     (case a of
        IntArr1 ws \<Rightarrow> IntArr1 (map g ws)
      | IntArr2 m \<Rightarrow> IntArr2 (m\<lparr>irows := map (map g) (irows m)\<rparr>)
      | _ \<Rightarrow> a)"

definition np_iadd :: "ndarray \<Rightarrow> pynum \<Rightarrow> py_error + ndarray" where
  "np_iadd a x =
     (case x of
        PyInt k \<Rightarrow>
          if is_int_array a then
            (if - (2 ^ 63) \<le> k \<and> k < 2 ^ 63
             then Inr (map_ints (\<lambda>w. w + word_of_int k) a) else Inl TypeError)
          else
            (if - (2 ^ 63) \<le> k \<and> k < 2 ^ 64
             then Inr (map_floats (\<lambda>y. fadd y (fl (of_int k))) a) else Inl TypeError)
      | PyFloat f \<Rightarrow>
          if is_int_array a then Inl TypeError else Inr (map_floats (\<lambda>y. fadd y f) a))"

text \<open>\<open>np.hstack\<close> of two-dimensional arrays: they must agree in their number of rows.\<close>

definition np_hstack :: "matrix list \<Rightarrow> py_error + matrix" where
  "np_hstack ms =
     (case ms of
        [] \<Rightarrow> Inl ValueError
      | m # ms' \<Rightarrow>
          if list_all (\<lambda>m'. nrows m' = nrows m) ms'
          then Inr \<lparr>ncols = sum_list (map ncols ms),
                    rows = map (\<lambda>i. concat (map (\<lambda>m'. rows m' ! i) ms)) [0..<nrows m]\<rparr>
          else Inl ValueError)"

text \<open>
  \<open>np.arange(0.0, stop, step)\<close> for Python numbers \<open>stop\<close> and \<open>step\<close>.  numpy computes
  \<open>(stop - 0.0) / step\<close> with Python's arithmetic and takes the ceiling as the length: it
  raises ValueError when that is no number, and also (\<open>Maximum allowed size exceeded\<close>)
  when it is beyond the integers of the machine or one of the operations raises
  OverflowError.  The array holds \<open>0.0\<close>, then \<open>0.0 + step\<close>, then for each further
  position \<open>i\<close> the float product of \<open>i\<close> and the second element, added to the first.
  The memory an array takes is not modelled.
\<close>

definition size_exceeded :: "py_error + 'a \<Rightarrow> py_error + 'a" where
  "size_exceeded r = (case r of Inl OverflowError \<Rightarrow> Inl ValueError | _ \<Rightarrow> r)"

definition arange_length :: "pyfloat \<Rightarrow> py_error + int" where
  "arange_length v =
     (case v of
        NaN \<Rightarrow> Inl ValueError
      | Infty s \<Rightarrow> Inl ValueError
      | Val q \<Rightarrow> if \<lceil>q\<rceil> < - (2 ^ 63) \<or> 2 ^ 63 < \<lceil>q\<rceil> then Inl ValueError else Inr \<lceil>q\<rceil>)"

definition arange_fill :: "pyfloat \<Rightarrow> nat \<Rightarrow> pyfloat" where
  "arange_fill next i =
     (if i = 0 then Val 0 else if i = 1 then next
      else fadd (Val 0) (fmul (fl (of_nat i)) (fadd next (Val 0))))"

definition np_arange :: "pynum \<Rightarrow> pynum \<Rightarrow> py_error + vector" where
  "np_arange stop step =
     ebind (size_exceeded (as_float stop)) (\<lambda>diff.
     ebind (size_exceeded (py_truediv diff step)) (\<lambda>v.
     ebind (arange_length v) (\<lambda>len.
       if len \<le> 0 then Inr []
       else ebind (size_exceeded (as_float step)) (\<lambda>next.
            Inr (map (arange_fill next) [0..<nat len])))))"

text \<open>\<open>pd.DataFrame(signal, columns=names)\<close>: as many names as the array has columns.\<close>

definition pd_DataFrame :: "matrix \<Rightarrow> nat \<Rightarrow> py_error + matrix" where
  "pd_DataFrame signal n_names = (if ncols signal = n_names then Inr signal else Inl ValueError)"

text \<open>
  \<open>pd.concat(frames, axis=1).values\<close> for frames indexed \<open>0, 1, \<dots>\<close>: the rows are
  joined by position, a frame that is too short being filled with NaN.
\<close>

definition padded_row :: "matrix \<Rightarrow> nat \<Rightarrow> vector" where
  "padded_row m i = (if i < nrows m then rows m ! i else replicate (ncols m) NaN)"

definition pd_concat_columns :: "matrix list \<Rightarrow> py_error + matrix" where
  "pd_concat_columns frames =
     (if frames = [] then Inl ValueError
      else Inr \<lparr>ncols = sum_list (map ncols frames),
                rows = map (\<lambda>i. concat (map (\<lambda>m. padded_row m i) frames))
                         [0..<Max (set (map nrows frames))]\<rparr>)"

subsection \<open>The Transformer\<close>

text \<open>
  The attributes of a Transformer that the modelled methods read.  \<open>'ord\<close> is the type
  of a norm order.
\<close>

record transformer =
  tr :: pynum
  nscans :: "string \<rightharpoonup> int"
  indexes :: "nat list list"
  offset_type_dict :: "string \<rightharpoonup> string list"
  duration_type_dict :: "string \<rightharpoonup> string list"
  offset_path :: string
  duration_path :: string
  language :: string
  temporal_shifting :: pynum
  hrf :: string
  oversampling :: int
  with_mean :: bool
  with_std :: bool

text \<open>
  Library calls taken as parameters.  \<open>scaler with_mean with_std M\<close> is what
  \<open>StandardScaler(with_mean, with_std)\<close> of sklearn, newly made, fitted on \<open>M\<close>, returns
  from \<open>transform(M)\<close>, or the exception raised on the way.  \<open>norm_divide order axis M\<close>
  is \<open>M / np.mean(la.norm(M, ord=order, axis=axis))\<close>.  \<open>conv\<close> is
  \<open>compute_regressor\<close> of nistats: from the conditions, the name of the response
  function, the frame times and the oversampling to the signal and the names of its columns.
\<close>

type_synonym scaler = "bool \<Rightarrow> bool \<Rightarrow> matrix \<Rightarrow> py_error + matrix"

type_synonym 'ord norm_divide = "'ord \<Rightarrow> int \<Rightarrow> matrix \<Rightarrow> py_error + matrix"

type_synonym convolution =
  "ndarray \<Rightarrow> string \<Rightarrow> vector \<Rightarrow> int \<Rightarrow> py_error + (matrix \<times> string list)"

text \<open>
  The loop \<open>for index in range(len(matrices)): matrices[index] = f(matrices[index])\<close>
  of the three scaling methods, over the positions it visits.
\<close>

fun for_each_index ::
  "(matrix \<Rightarrow> py_error + matrix) \<Rightarrow> nat list \<Rightarrow> matrix list \<Rightarrow> py_error + matrix list" where
  "for_each_index f [] matrices = Inr matrices"
| "for_each_index f (index # rest) matrices =
     ebind (f (matrices ! index)) (\<lambda>m. for_each_index f rest (matrices[index := m]))"

text \<open>The returned dictionary: \<open>matrices[:-len(X_test)]\<close> and \<open>matrices[-len(X_test):]\<close>.\<close>

record split =
  X_train :: "matrix list"
  X_test :: "matrix list"

definition split_result :: "matrix list \<Rightarrow> matrix list \<Rightarrow> split" where
  "split_result matrices test =
     \<lparr>X_train = py_slice_to matrices (- int (length test)),
      X_test = py_slice_from matrices (- int (length test))\<rparr>"

definition standardize_matrices ::
  "scaler \<Rightarrow> transformer \<Rightarrow> matrix list \<Rightarrow> matrix list \<Rightarrow> py_error + matrix list" where
  "standardize_matrices sc self train test =
     (let matrices = train @ test in
      for_each_index (sc (with_mean self) (with_std self)) [0..<length matrices] matrices)"

definition standardize ::
  "scaler \<Rightarrow> transformer \<Rightarrow> matrix list \<Rightarrow> matrix list \<Rightarrow> py_error + split" where
  "standardize sc self train test =
     ebind (standardize_matrices sc self train test) (\<lambda>matrices.
       Inr (split_result matrices test))"

definition identity_matrices ::
  "scaler \<Rightarrow> matrix list \<Rightarrow> matrix list \<Rightarrow> bool \<Rightarrow> py_error + matrix list" where
  "identity_matrices sc train test centering =
     (let matrices = train @ test in
      if centering then for_each_index (sc centering False) [0..<length matrices] matrices
      else Inr matrices)"

definition identity ::
  "scaler \<Rightarrow> matrix list \<Rightarrow> matrix list \<Rightarrow> bool \<Rightarrow> py_error + split" where
  "identity sc train test centering =
     ebind (identity_matrices sc train test centering) (\<lambda>matrices.
       Inr (split_result matrices test))"

definition normalize_matrices ::
  "scaler \<Rightarrow> 'ord norm_divide \<Rightarrow> matrix list \<Rightarrow> matrix list \<Rightarrow> 'ord \<Rightarrow> bool \<Rightarrow> int \<Rightarrow>
   py_error + matrix list" where
  "normalize_matrices sc nd train test order centering scaling_axis =
     (let matrices = train @ test in
      for_each_index (\<lambda>m. ebind (sc centering False m) (nd order scaling_axis))
        [0..<length matrices] matrices)"

definition normalize_py ::
  "scaler \<Rightarrow> 'ord norm_divide \<Rightarrow> matrix list \<Rightarrow> matrix list \<Rightarrow> 'ord \<Rightarrow> bool \<Rightarrow> int \<Rightarrow>
   py_error + split" where
  "normalize_py sc nd train test order centering scaling_axis =
     ebind (normalize_matrices sc nd train test order centering scaling_axis) (\<lambda>matrices.
       Inr (split_result matrices test))"

subsection \<open>Transformer.compute_regressor and Transformer.make_regressor\<close>

text \<open>
  Lines 212 to 217 of \<open>compute_regressor\<close>: the frame without its incomplete rows, the
  shifted offsets and the durations.
\<close>

definition regressor_events ::
  "filesystem \<Rightarrow> transformer \<Rightarrow> matrix \<Rightarrow> string \<Rightarrow> string \<Rightarrow> string \<Rightarrow>
   py_error + (matrix \<times> ndarray \<times> ndarray)" where
  "regressor_events fs self dataframe offset_type duration_type run_index =
     (let dataframe = dropna dataframe in
      ebind (fetch_offsets fs offset_type run_index (offset_path self) (language self))
        (\<lambda>offsets.
      ebind (fetch_duration fs duration_type run_index (duration_path self) (nrows dataframe))
        (\<lambda>duration.
      ebind (np_iadd offsets (temporal_shifting self)) (\<lambda>offsets.
      Inr (dataframe, offsets, duration)))))"

text \<open>\<open>np.arange(0.0, self.nscans[run_index] * self.tr, self.tr)\<close>, the frame times of a run.\<close>

definition frame_times :: "transformer \<Rightarrow> string \<Rightarrow> py_error + vector" where
  "frame_times self run_index =
     ebind (py_lookup (nscans self) run_index) (\<lambda>n.
     ebind (py_mul n (tr self)) (\<lambda>stop.
     np_arange stop (tr self)))"

text \<open>The body of \<open>for col in representations\<close>: one frame of regressors.\<close>

definition column_regressor ::
  "convolution \<Rightarrow> transformer \<Rightarrow> string \<Rightarrow> matrix \<Rightarrow> ndarray \<Rightarrow> ndarray \<Rightarrow> nat \<Rightarrow>
   py_error + matrix" where
  "column_regressor conv self run_index dataframe offsets duration col =
     ebind (np_vstack [offsets, duration, Arr1 (column dataframe col)]) (\<lambda>conditions.
     ebind (frame_times self run_index) (\<lambda>frames.
     ebind (conv conditions (hrf self) frames (oversampling self)) (\<lambda>(signal, names).
     pd_DataFrame signal (1 + length (py_slice_from names 1)))))"

definition compute_regressor ::
  "convolution \<Rightarrow> filesystem \<Rightarrow> transformer \<Rightarrow> matrix \<Rightarrow> string \<Rightarrow> string \<Rightarrow> string \<Rightarrow>
   py_error + matrix" where
  "compute_regressor conv fs self dataframe offset_type duration_type run_index =
     ebind (regressor_events fs self dataframe offset_type duration_type run_index)
       (\<lambda>(dataframe, offsets, duration).
     ebind (traverse (column_regressor conv self run_index dataframe offsets duration)
              [0..<ncols dataframe]) (\<lambda>regressors.
     pd_concat_columns regressors))"

text \<open>
  One element of the list comprehension of \<open>make_regressor\<close>, for the array at position
  \<open>array_index\<close> and the model at position \<open>i\<close>.
\<close>

definition model_regressor ::
  "convolution \<Rightarrow> filesystem \<Rightarrow> transformer \<Rightarrow> int list \<Rightarrow> nat \<Rightarrow> matrix \<Rightarrow> nat \<Rightarrow> nat list \<Rightarrow>
   py_error + matrix" where
  "model_regressor conv fs self runs array_index array i index =
     ebind (select_columns array index) (\<lambda>dataframe.
     ebind (py_index runs array_index) (\<lambda>r.
     ebind (py_lookup (offset_type_dict self) (''run'' @ str_int (r + 1))) (\<lambda>offset_types.
     ebind (py_index offset_types i) (\<lambda>offset_type.
     ebind (py_lookup (duration_type_dict self) (''run'' @ str_int (r + 1))) (\<lambda>duration_types.
     ebind (py_index duration_types i) (\<lambda>duration_type.
     compute_regressor conv fs self dataframe offset_type duration_type
       (''run'' @ str_int (r + 1))))))))"

definition make_regressor_matrices ::
  "convolution \<Rightarrow> filesystem \<Rightarrow> transformer \<Rightarrow> matrix list \<Rightarrow> matrix list \<Rightarrow> int list \<Rightarrow>
   int list \<Rightarrow> py_error + matrix list" where
  "make_regressor_matrices conv fs self train test run_train run_test =
     (let matrices0 = train @ test;
          runs = run_train @ run_test in
      ebind (traverse (\<lambda>(array_index, array).
               traverse (\<lambda>(i, index). model_regressor conv fs self runs array_index array i index)
                 (enumerate 0 (indexes self)))
             (enumerate 0 matrices0)) (\<lambda>nested.
      let matrices = concat nested;
          step = length (indexes self) in
      ebind (py_range_step (length matrices) step) (\<lambda>xs.
      traverse (\<lambda>x. np_hstack (take step (drop x matrices))) xs)))"

record regressor_split = split +
  run_train :: "int list"
  run_test :: "int list"

definition make_regressor ::
  "convolution \<Rightarrow> filesystem \<Rightarrow> transformer \<Rightarrow> matrix list \<Rightarrow> matrix list \<Rightarrow> int list \<Rightarrow>
   int list \<Rightarrow> py_error + regressor_split" where
  "make_regressor conv fs self train test runs_train runs_test =
     ebind (make_regressor_matrices conv fs self train test runs_train runs_test)
       (\<lambda>matrices.
       Inr \<lparr>X_train = py_slice_to matrices (- int (length test)),
            X_test = py_slice_from matrices (- int (length test)),
            run_train = runs_train, run_test = runs_test\<rparr>)"

subsection \<open>Notions for the claims about the Transformer\<close>

text \<open>
  \<open>split_of\<close>: the result \<open>r\<close> is cut from the flattened list \<open>matrices\<close> the way
  Python cuts it.  \<open>hrf_rows\<close>: the convolution returns one row per frame time, as the
  documentation of nistats promises.  \<open>restricted_to model frames over conv\<close> is the
  convolution that answers as \<open>conv\<close> does when it is called with that response function,
  those frame times and that oversampling, and raises on every other call.
  \<open>exact_frames x n t\<close>: the repetition time \<open>x\<close> is the positive double \<open>t\<close>, given as an
  integer or as a float, the scan count \<open>n\<close> is between \<open>0\<close> and \<open>2\<^sup>5\<^sup>3\<close>, and the product
  \<open>n t\<close> is a double, so that no rounding occurs when it is computed.
\<close>

definition split_of :: "matrix list \<Rightarrow> matrix list \<Rightarrow> matrix list \<Rightarrow> 'a split_scheme \<Rightarrow> bool" where
  "split_of matrices train test r \<longleftrightarrow>
     length matrices = length train + length test \<and>
     X_train r = py_slice_to matrices (- int (length test)) \<and>
     X_test r = py_slice_from matrices (- int (length test)) \<and>
     (test \<noteq> [] \<longrightarrow>
        X_train r = take (length train) matrices \<and> X_test r = drop (length train) matrices \<and>
        length (X_train r) = length train \<and> length (X_test r) = length test) \<and>
     (test = [] \<longrightarrow> X_train r = [] \<and> X_test r = matrices)"



definition tr_value :: "pynum \<Rightarrow> rat \<Rightarrow> bool" where
  "tr_value x t = (case x of PyInt i \<Rightarrow> t = of_int i | PyFloat f \<Rightarrow> f = Val t)"

definition exact_frames :: "pynum \<Rightarrow> int \<Rightarrow> rat \<Rightarrow> bool" where
  "exact_frames x n t \<longleftrightarrow>
     tr_value x t \<and> fl t = Val t \<and> 0 < t \<and> 0 \<le> n \<and> n \<le> 2 ^ 53 \<and>
     fl (of_int n * t) = Val (of_int n * t)"

section \<open>Example task graphs\<close>

definition mk_task :: "string \<Rightarrow> tid list \<Rightarrow> tid list \<Rightarrow> nat task" where
  "mk_task n ps cs =
     \<lparr>name = n, parents = ps, children = cs, terminated = False, task_output = None,
      operation = length\<rparr>"

definition diamond :: "nat task list" where
  "diamond = [mk_task ''root'' [] [1, 2], mk_task ''left'' [0] [3],
              mk_task ''right'' [0] [3], mk_task ''join'' [1, 2] []]"

definition cycle3 :: "nat task list" where
  "cycle3 = [mk_task ''root'' [] [1], mk_task ''a'' [0, 2] [2], mk_task ''b'' [1] [1]]"

definition cycle2 :: "nat task list" where
  "cycle2 = [mk_task ''a'' [1] [1], mk_task ''b'' [0] [0]]"

text \<open>The two-task cycle with \<open>b\<close> already terminated, as a run that executed it leaves it.\<close>

definition cycle2_done :: "nat task list" where
  "cycle2_done = [mk_task ''a'' [1] [1], (mk_task ''b'' [0] [0])\<lparr>terminated := True\<rparr>]"

definition tree4 :: "nat task list" where
  "tree4 = [mk_task ''root'' [] [1, 2], mk_task ''a'' [0] [],
            mk_task ''b'' [0] [3], mk_task ''b1'' [2] []]"

definition tree4_mid :: "nat fit_state" where
  "tree4_mid =
     \<lparr>heap = [(mk_task ''root'' [] [1, 2])\<lparr>terminated := True\<rparr>, mk_task ''a'' [0] [],
              (mk_task ''b'' [0] [3])\<lparr>terminated := True\<rparr>, mk_task ''b1'' [2] []],
      tasks = [0, 2], queue = [3, 1], count = 4, logged = []\<rparr>"

definition two_sources :: "nat task list" where
  "two_sources = [mk_task ''root'' [] [2], mk_task ''other'' [] [2],
                  mk_task ''join'' [0, 1] []]"

text \<open>
  Example arguments for the Transformer.  \<open>shift_scaler\<close> and \<open>keep_norm\<close> stand in
  for the library calls: like them they may raise, and their result depends on the flags.
\<close>

definition shift_scaler :: scaler where
  "shift_scaler wm ws m =
     (if rows m = [] then Inl ValueError
      else Inr (m\<lparr>rows := map (map (\<lambda>x. fadd x (Val (if wm then - 1 else 0)))) (rows m)\<rparr>))"

definition keep_norm :: "nat norm_divide" where
  "keep_norm order axis m = (if order = 0 then Inl ValueError else Inr m)"

definition m_a :: matrix where
  "m_a = \<lparr>ncols = 1, rows = [[Val 1], [Val 3], [Val 5]]\<rparr>"

definition m_b :: matrix where
  "m_b = \<lparr>ncols = 1, rows = [[Val 2], [Val 2], [Val 2]]\<rparr>"

definition m_c :: matrix where
  "m_c = \<lparr>ncols = 1, rows = [[Val 7], [Val 8], [Val 9]]\<rparr>"

definition example_transformer :: transformer where
  "example_transformer =
     \<lparr>tr = PyInt 2,
      nscans = [''run1'' \<mapsto> 3, ''run2'' \<mapsto> 3],
      indexes = [[0]],
      offset_type_dict = [''run1'' \<mapsto> [''word''], ''run2'' \<mapsto> [''word'']],
      duration_type_dict = [''run1'' \<mapsto> [''word''], ''run2'' \<mapsto> [''word'']],
      offset_path = ''offsets'',
      duration_path = ''data'',
      language = ''english'',
      temporal_shifting = PyFloat (Val 0),
      hrf = ''spm'',
      oversampling = 10,
      with_mean = True,
      with_std = True\<rparr>"

text \<open>
  Example files: offsets of three events for the type \<open>word\<close> in runs 1 and 2, of two
  events for the type \<open>pause\<close> in run 1, and no durations file.  \<open>frame_response\<close>
  stands in for the convolution: it asks for three rows of conditions and returns one row
  per frame time, here the frame time itself.  \<open>gap_frame\<close> has three complete rows,
  \<open>pair_frame\<close> two and \<open>nan_frame\<close> none.
\<close>

definition example_files :: filesystem where
  "example_files =
     [''offsets/english/word_run1.csv'' \<mapsto>
        [(''offsets'', FloatCol [Val 0, Val 2, Val 4])],
      ''offsets/english/word_run2.csv'' \<mapsto>
        [(''offsets'', FloatCol [Val 1, Val 3, Val 5])],
      ''offsets/english/pause_run1.csv'' \<mapsto>
        [(''offsets'', FloatCol [Val 1, Val 3])]]"

definition frame_response :: convolution where
  "frame_response conditions model frames over =
     (if length (float_rows conditions) = 3
      then Inr (\<lparr>ncols = 1, rows = map (\<lambda>t. [t]) frames\<rparr>, [''cond''])
      else Inl ValueError)"

definition gap_frame :: matrix where
  "gap_frame = \<lparr>ncols = 1, rows = [[Val 1], [NaN], [Val 3], [Val 5]]\<rparr>"

definition pair_frame :: matrix where
  "pair_frame = \<lparr>ncols = 1, rows = [[Val 7], [NaN], [Val 9]]\<rparr>"

definition nan_frame :: matrix where
  "nan_frame = \<lparr>ncols = 1, rows = [[NaN], [NaN]]\<rparr>"


section \<open>The work-list loop of fit: invariants and termination\<close>

lemma sum_list_map_update:
  "i < length xs \<Longrightarrow>
   sum_list (map f (xs[i := y])) + f (xs ! i) = sum_list (map f xs) + (f y :: nat)"
  by (induction xs arbitrary: i) (auto split: nat.splits)

lemma wf_heap_children:
  "wf_heap h \<Longrightarrow> t < length h \<Longrightarrow> c \<in> set (children (h ! t)) \<Longrightarrow>
   c < length h \<and> t \<in> set (parents (h ! c))"
  unfolding wf_heap_def by blast

lemma wf_heap_parents:
  "wf_heap h \<Longrightarrow> t < length h \<Longrightarrow> p \<in> set (parents (h ! t)) \<Longrightarrow>
   p < length h \<and> t \<in> set (children (h ! p))"
  unfolding wf_heap_def by blast

lemma is_terminated_inv:
  "fit_inv h st \<Longrightarrow> t < length h \<Longrightarrow> is_terminated (heap st) t = (t \<in> set (tasks st))"
  by (simp add: fit_inv_def is_terminated_def)

lemma is_waiting_inv:
  assumes "fit_inv h st" "wf_heap h" "t < length h"
  shows "is_waiting (heap st) t = (\<exists>p\<in>set (parents (h ! t)). p \<notin> set (tasks st))"
proof -
  have "\<forall>p\<in>set (parents (h ! t)). p < length h"
    using wf_heap_parents[OF assms(2,3)] by blast
  then show ?thesis
    using assms(1,3) by (auto simp: fit_inv_def is_waiting_def list_ex_iff)
qed

lemma fit_step_cases:
  assumes "fit_inv h st" "wf_heap h" "queue st \<noteq> []"
  obtains
    (error) t q where "queue st = q @ [t]" "t < length h" "t \<notin> set (tasks st)"
      "\<exists>p\<in>set (parents (h ! t)). p \<notin> set (tasks st)" "count st = 0"
      "fit_step st = st\<lparr>queue := q,
         logged := logged st @ [Error ''Loop detected... Please check tasks dependencies.'']\<rparr>"
  | (requeue) t q where "queue st = q @ [t]" "t < length h" "t \<notin> set (tasks st)"
      "\<exists>p\<in>set (parents (h ! t)). p \<notin> set (tasks st)" "0 < count st"
      "fit_step st = st\<lparr>queue := t # q, count := count st - 1\<rparr>"
  | (ready) t q where "queue st = q @ [t]" "t < length h" "t \<notin> set (tasks st)"
      "\<forall>p\<in>set (parents (h ! t)). p \<in> set (tasks st)"
      "fit_step st = st\<lparr>heap := (heap st)[t := (heap st ! t)\<lparr>terminated := True\<rparr>],
         tasks := tasks st @ [t], queue := children (h ! t) @ q,
         count := count st + int (length (children (h ! t)))\<rparr>"
  | (drop) t q where "queue st = q @ [t]" "t < length h" "t \<in> set (tasks st)"
      "fit_step st = st\<lparr>queue := q\<rparr>"
proof -
  obtain q t where qt: "queue st = q @ [t]"
    using assms(3) by (metis append_butlast_last_id)
  have t: "t < length h" using assms(1) qt by (simp add: fit_inv_def)
  have T: "is_terminated (heap st) t = (t \<in> set (tasks st))"
    using is_terminated_inv[OF assms(1) t] .
  have Wt: "is_waiting (heap st) t = (\<exists>p\<in>set (parents (h ! t)). p \<notin> set (tasks st))"
    using is_waiting_inv[OF assms(1,2) t] .
  have ch: "children (heap st ! t) = children (h ! t)"
    using assms(1) t by (simp add: fit_inv_def)
  have c0: "0 \<le> count st" using assms(1) by (simp add: fit_inv_def)
  show thesis
  proof (cases "t \<in> set (tasks st)")
    case True
    then have "fit_step st = st\<lparr>queue := q\<rparr>"
      using T qt by (simp add: fit_step_def Let_def)
    then show ?thesis using drop qt t True by blast
  next
    case nt: False
    show ?thesis
    proof (cases "\<exists>p\<in>set (parents (h ! t)). p \<notin> set (tasks st)")
      case w: True
      show ?thesis
      proof (cases "count st = 0")
        case True
        then have "fit_step st = st\<lparr>queue := q,
           logged := logged st @ [Error ''Loop detected... Please check tasks dependencies.'']\<rparr>"
          using T Wt nt w qt by (simp add: fit_step_def Let_def)
        then show ?thesis using error qt t nt w True by blast
      next
        case False
        then have "fit_step st = st\<lparr>queue := t # q, count := count st - 1\<rparr>"
          using T Wt nt w qt by (simp add: fit_step_def Let_def)
        moreover have "0 < count st" using False c0 by simp
        ultimately show ?thesis using requeue qt t nt w by blast
      qed
    next
      case False
      then have "fit_step st = st\<lparr>heap := (heap st)[t := (heap st ! t)\<lparr>terminated := True\<rparr>],
         tasks := tasks st @ [t], queue := children (h ! t) @ q,
         count := count st + int (length (children (h ! t)))\<rparr>"
        using T Wt nt qt ch by (simp add: fit_step_def Let_def set_terminated_def)
      then show ?thesis using ready qt t nt False by blast
    qed
  qed
qed

lemma fit_inv_step:
  assumes "fit_inv h st" "wf_heap h" "queue st \<noteq> []"
  shows "fit_inv h (fit_step st)"
  using assms
proof (cases rule: fit_step_cases)
  case (ready t q)
  have len: "length (heap st) = length h" using assms(1) by (simp add: fit_inv_def)
  have nth: "\<forall>i<length h. heap st ! i = (h ! i)\<lparr>terminated := i \<in> set (tasks st)\<rparr>"
    using assms(1) by (simp add: fit_inv_def)
  have "\<forall>c\<in>set (children (h ! t)). c < length h"
    using wf_heap_children[OF assms(2) ready(2)] by blast
  moreover have "\<forall>i<length h. ((heap st)[t := (heap st ! t)\<lparr>terminated := True\<rparr>]) ! i
       = (h ! i)\<lparr>terminated := i \<in> set (tasks st @ [t])\<rparr>"
    using len nth ready(2) by (auto simp: nth_list_update)
  ultimately show ?thesis
    using assms(1) ready len unfolding fit_inv_def by auto
next
  case (error t q)
  then show ?thesis using assms(1) unfolding fit_inv_def by simp
next
  case (requeue t q)
  then show ?thesis using assms(1) unfolding fit_inv_def by simp
next
  case (drop t q)
  then show ?thesis using assms(1) unfolding fit_inv_def by simp
qed

lemma fit_measure_step:
  assumes "fit_inv h st" "wf_heap h" "queue st \<noteq> []"
  shows "fit_measure (fit_step st) < fit_measure st"
  using assms
proof (cases rule: fit_step_cases)
  case (ready t q)
  let ?f = "\<lambda>t::'a task. if terminated t then 0 else 2 * length (children t) + 1"
  have len: "t < length (heap st)" using assms(1) ready(2) by (simp add: fit_inv_def)
  have ht: "heap st ! t = (h ! t)\<lparr>terminated := False\<rparr>"
    using assms(1) ready(2,3) by (simp add: fit_inv_def)
  have "sum_list (map ?f ((heap st)[t := (heap st ! t)\<lparr>terminated := True\<rparr>])) + ?f (heap st ! t)
      = sum_list (map ?f (heap st)) + ?f ((heap st ! t)\<lparr>terminated := True\<rparr>)"
    using sum_list_map_update[OF len] .
  moreover have "0 \<le> count st" using assms(1) by (simp add: fit_inv_def)
  ultimately show ?thesis
    using ready(1,5) ht by (simp add: fit_measure_def)
next
  case (error t q)
  then show ?thesis by (simp add: fit_measure_def)
next
  case (requeue t q)
  then show ?thesis by (simp add: fit_measure_def)
next
  case (drop t q)
  then show ?thesis by (simp add: fit_measure_def)
qed

lemma fit_loop_rule:
  assumes "fit_inv h st" and "wf_heap h" and "I st"
    and step: "\<And>s. fit_inv h s \<Longrightarrow> I s \<Longrightarrow> queue s \<noteq> [] \<Longrightarrow> I (fit_step s)"
  shows "\<exists>st'. fit_loop st = Some st' \<and> queue st' = [] \<and> fit_inv h st' \<and> I st'"
  using assms(1,3)
proof (induction "fit_measure st" arbitrary: st rule: less_induct)
  case less
  show ?case
  proof (cases "queue st = []")
    case True
    then have "fit_loop st = Some st" by (subst fit_loop.simps) simp
    then show ?thesis using True less.prems by blast
  next
    case False
    have "fit_measure (fit_step st) < fit_measure st"
      using fit_measure_step[OF less.prems(1) assms(2) False] .
    moreover have "fit_inv h (fit_step st)"
      using fit_inv_step[OF less.prems(1) assms(2) False] .
    moreover have "I (fit_step st)"
      using step[OF less.prems(1,2) False] .
    ultimately obtain st' where "fit_loop (fit_step st) = Some st'" "queue st' = []"
      "fit_inv h st'" "I st'"
      using less.hyps by blast
    moreover have "fit_loop st = fit_loop (fit_step st)"
      using False by (subst fit_loop.simps) simp
    ultimately show ?thesis by auto
  qed
qed

lemma after_parents_snoc:
  assumes "after_parents h ts" "\<forall>p\<in>set (parents (h ! t)). p \<in> set ts"
  shows "after_parents h (ts @ [t])"
  unfolding after_parents_def
proof (intro allI impI ballI)
  fix i p
  assume i: "i < length (ts @ [t])" and p: "p \<in> set (parents (h ! ((ts @ [t]) ! i)))"
  show "p \<in> set (take i (ts @ [t]))"
  proof (cases "i < length ts")
    case True
    then show ?thesis using assms(1) p by (simp add: after_parents_def nth_append)
  next
    case False
    then have "i = length ts" using i by simp
    then show ?thesis using assms(2) p by simp
  qed
qed

lemma inv_order_step:
  assumes "fit_inv h st" "wf_heap h" "queue st \<noteq> []" "inv_order h st"
  shows "inv_order h (fit_step st)"
  using assms(1-3)
proof (cases rule: fit_step_cases)
  case (ready t q)
  then show ?thesis
    using assms(4) after_parents_snoc[of h "tasks st" t] by (simp add: inv_order_def)
next
  case (error t q)
  then show ?thesis using assms(4) by (simp add: inv_order_def)
next
  case (requeue t q)
  then show ?thesis using assms(4) by (simp add: inv_order_def)
next
  case (drop t q)
  then show ?thesis using assms(4) by (simp add: inv_order_def)
qed

lemma reachable_child:
  "p \<in> reachable h rt \<Longrightarrow> p < length h \<Longrightarrow> c \<in> set (children (h ! p)) \<Longrightarrow> c \<in> reachable h rt"
  unfolding reachable_def child_rel_def by (auto intro: rtrancl_into_rtrancl)

lemma inv_reach_step:
  assumes "fit_inv h st" "wf_heap h" "queue st \<noteq> []" "inv_reach h rt st"
  shows "inv_reach h rt (fit_step st)"
  using assms(1-3)
proof (cases rule: fit_step_cases)
  case (ready t q)
  have "t \<in> reachable h rt" using assms(4) ready(1) by (simp add: inv_reach_def)
  then have "\<forall>c\<in>set (children (h ! t)). c \<in> reachable h rt"
    using reachable_child ready(2) by blast
  then show ?thesis
    using assms(4) ready(1,5) by (auto simp: inv_reach_def)
next
  case (error t q)
  then show ?thesis using assms(4) by (simp add: inv_reach_def)
next
  case (requeue t q)
  then show ?thesis using assms(4) by (simp add: inv_reach_def)
next
  case (drop t q)
  then show ?thesis using assms(4) by (simp add: inv_reach_def)
qed

lemma inv_pending_step:
  assumes "fit_inv h st" "wf_heap h" "queue st \<noteq> []" "inv_pending h rt st" "rt < length h"
  shows "inv_pending h rt (fit_step st)"
  using assms(1-3)
proof (cases rule: fit_step_cases)
  case (ready t q)
  have tasks_lt: "\<forall>p\<in>set (tasks st). p < length h"
    using assms(1) by (simp add: fit_inv_def)
  have A: "\<forall>p\<in>set (tasks st). \<forall>c\<in>set (children (h ! p)).
        c \<in> set q \<union> {t} \<union> set (tasks st) \<or> (\<exists>x\<in>set (parents (h ! c)). x \<notin> set (tasks st))"
    and B: "rt \<in> set q \<union> {t} \<union> set (tasks st) \<or> (\<exists>x\<in>set (parents (h ! rt)). x \<notin> set (tasks st))"
    using assms(4) ready(1) by (auto simp: inv_pending_def)
  have C: "c \<in> set (children (h ! t)) \<union> set q \<union> (set (tasks st) \<union> {t}) \<or>
           (\<exists>x\<in>set (parents (h ! c)). x \<notin> set (tasks st) \<union> {t})"
    if H1: "c \<in> set q \<union> {t} \<union> set (tasks st) \<or> (\<exists>x\<in>set (parents (h ! c)). x \<notin> set (tasks st))"
      and H2: "c < length h" for c
  proof (cases "c \<in> set q \<union> {t} \<union> set (tasks st)")
    case True
    then show ?thesis by blast
  next
    case False
    then obtain x where x: "x \<in> set (parents (h ! c))" "x \<notin> set (tasks st)"
      using H1 by blast
    show ?thesis
    proof (cases "x = t")
      case True
      then have "c \<in> set (children (h ! t))"
        using wf_heap_parents[OF assms(2) H2 x(1)] by simp
      then show ?thesis by blast
    next
      case False
      then show ?thesis using x by blast
    qed
  qed
  have "\<forall>p\<in>set (tasks st) \<union> {t}. \<forall>c\<in>set (children (h ! p)).
        c \<in> set (children (h ! t)) \<union> set q \<union> (set (tasks st) \<union> {t}) \<or>
        (\<exists>x\<in>set (parents (h ! c)). x \<notin> set (tasks st) \<union> {t})"
  proof (intro ballI)
    fix p c
    assume p: "p \<in> set (tasks st) \<union> {t}" and c: "c \<in> set (children (h ! p))"
    have pl: "p < length h" using p tasks_lt ready(2) by blast
    have cl: "c < length h" using wf_heap_children[OF assms(2) pl c] by simp
    show "c \<in> set (children (h ! t)) \<union> set q \<union> (set (tasks st) \<union> {t}) \<or>
        (\<exists>x\<in>set (parents (h ! c)). x \<notin> set (tasks st) \<union> {t})"
    proof (cases "p = t")
      case True
      then show ?thesis using c by blast
    next
      case False
      then have "p \<in> set (tasks st)" using p by blast
      then show ?thesis using A c C[OF _ cl] by blast
    qed
  qed
  moreover have "rt \<in> set (children (h ! t)) \<union> set q \<union> (set (tasks st) \<union> {t}) \<or>
        (\<exists>x\<in>set (parents (h ! rt)). x \<notin> set (tasks st) \<union> {t})"
    using C[OF B assms(5)] .
  ultimately show ?thesis
    using ready(5) by (simp add: inv_pending_def)
next
  case (error t q)
  have "\<forall>c. c \<in> set (queue st) \<union> set (tasks st) \<or> (\<exists>x\<in>set (parents (h ! c)). x \<notin> set (tasks st))
      \<longrightarrow> c \<in> set q \<union> set (tasks st) \<or> (\<exists>x\<in>set (parents (h ! c)). x \<notin> set (tasks st))"
    using error(1,4) by auto
  then show ?thesis using assms(4) error(6) by (simp add: inv_pending_def) blast
next
  case (requeue t q)
  have "set (t # q) = set (queue st)" using requeue(1) by auto
  then show ?thesis using assms(4) requeue(6) by (simp add: inv_pending_def)
next
  case (drop t q)
  have "set (queue st) \<union> set (tasks st) = set q \<union> set (tasks st)"
    using drop(1,3) by auto
  then show ?thesis using assms(4) drop(4) by (simp add: inv_pending_def)
qed

lemma reachable_lt:
  assumes "wf_heap h" "rt < length h" "t \<in> reachable h rt"
  shows "t < length h"
proof -
  have "(rt, t) \<in> (child_rel h)\<^sup>*" using assms(3) by (simp add: reachable_def)
  then show ?thesis
  proof (induction rule: rtrancl_induct)
    case base
    show ?case using assms(2) .
  next
    case (step y z)
    then have "y < length h" "z \<in> set (children (h ! y))" by (simp_all add: child_rel_def)
    then show ?case using wf_heap_children[OF assms(1)] by blast
  qed
qed

lemma finite_child_rel:
  assumes "wf_heap h"
  shows "finite (child_rel h)"
proof -
  have "child_rel h \<subseteq> {..<length h} \<times> {..<length h}"
    using wf_heap_children[OF assms] by (fastforce simp: child_rel_def)
  then show ?thesis by (rule finite_subset) simp
qed

lemma fit_complete:
  assumes wf: "wf_heap h" and rt: "rt < length h" and ac: "acyclic (child_rel h)"
    and closed: "parents_reachable h rt"
    and pend: "inv_pending h rt st" and q: "queue st = []"
  shows "reachable h rt \<subseteq> set (tasks st)"
proof (rule ccontr)
  assume "\<not> reachable h rt \<subseteq> set (tasks st)"
  then obtain x where x: "x \<in> reachable h rt - set (tasks st)" by blast
  have "wf (child_rel h)" using finite_acyclic_wf[OF finite_child_rel[OF wf] ac] .
  then obtain u where u: "u \<in> reachable h rt - set (tasks st)"
    and least: "\<And>y. (y, u) \<in> child_rel h \<Longrightarrow> y \<notin> reachable h rt - set (tasks st)"
    using wfE_min[of "child_rel h" x "reachable h rt - set (tasks st)"] x by blast
  have ul: "u < length h" using reachable_lt[OF wf rt] u by blast
  have par: "\<forall>p\<in>set (parents (h ! u)). p \<in> set (tasks st)"
  proof
    fix p assume p: "p \<in> set (parents (h ! u))"
    have "p < length h \<and> u \<in> set (children (h ! p))" using wf_heap_parents[OF wf ul p] .
    then have "(p, u) \<in> child_rel h" by (simp add: child_rel_def)
    then have "p \<notin> reachable h rt - set (tasks st)" using least by blast
    moreover have "p \<in> reachable h rt"
      using closed u p unfolding parents_reachable_def by blast
    ultimately show "p \<in> set (tasks st)" by blast
  qed
  show False
  proof (cases "u = rt")
    case True
    then show False using pend q par u by (auto simp: inv_pending_def)
  next
    case False
    have "(rt, u) \<in> (child_rel h)\<^sup>*" using u by (simp add: reachable_def)
    then obtain p where p: "(rt, p) \<in> (child_rel h)\<^sup>*" "(p, u) \<in> child_rel h"
      using False by (auto elim: rtranclE)
    have pc: "p < length h" "u \<in> set (children (h ! p))"
      using p(2) by (simp_all add: child_rel_def)
    have "p \<in> set (parents (h ! u))" using wf_heap_children[OF wf pc] by simp
    then have "p \<in> set (tasks st)" using par by blast
    then have "u \<in> set (tasks st) \<or> (\<exists>q\<in>set (parents (h ! u)). q \<notin> set (tasks st))"
      using pend q pc(2) by (auto simp: inv_pending_def)
    then show False using par u by blast
  qed
qed

lemma reset_tasks_snoc:
  "reset_tasks h (ts @ [t]) = set_terminated (reset_tasks h ts) t False"
  by (simp add: reset_tasks_def)

lemma length_reset_tasks: "length (reset_tasks h ts) = length h"
  by (induction ts rule: rev_induct) (simp_all add: reset_tasks_def set_terminated_def)

lemma reset_tasks_nth:
  "i < length h \<Longrightarrow>
   reset_tasks h ts ! i = (if i \<in> set ts then (h ! i)\<lparr>terminated := False\<rparr> else h ! i)"
proof (induction ts rule: rev_induct)
  case Nil
  then show ?case by (simp add: reset_tasks_def)
next
  case (snoc t ts)
  have len: "i < length (reset_tasks h ts)" using snoc.prems by (simp add: length_reset_tasks)
  show ?case
  proof (cases "i = t")
    case True
    then show ?thesis
      using snoc len by (simp add: reset_tasks_snoc set_terminated_def)
  next
    case False
    then show ?thesis
      using snoc by (simp add: reset_tasks_snoc set_terminated_def)
  qed
qed

lemma reset_tasks_restores:
  assumes "fit_inv h st" "fresh h"
  shows "reset_tasks (heap st) (tasks st) = h"
proof (rule nth_equalityI)
  show "length (reset_tasks (heap st) (tasks st)) = length h"
    using assms(1) by (simp add: length_reset_tasks fit_inv_def)
next
  fix i assume "i < length (reset_tasks (heap st) (tasks st))"
  then have i: "i < length h" using assms(1) by (simp add: length_reset_tasks fit_inv_def)
  then have il: "i < length (heap st)" using assms(1) by (simp add: fit_inv_def)
  have hi: "heap st ! i = (h ! i)\<lparr>terminated := i \<in> set (tasks st)\<rparr>"
    using assms(1) i by (simp add: fit_inv_def)
  have "\<not> terminated (h ! i)" using assms(2) i by (simp add: fresh_def)
  then have "(h ! i)\<lparr>terminated := False\<rparr> = h ! i" by simp
  then show "reset_tasks (heap st) (tasks st) ! i = h ! i"
    using reset_tasks_nth[OF il, of "tasks st"] hi by simp
qed

lemma name_execute: "name (execute h t ! u) = name (h ! u)"
proof (cases "t < length h")
  case True
  then show ?thesis by (cases "u = t") (simp_all add: execute_def)
next
  case False
  then show ?thesis by (simp add: execute_def list_update_beyond)
qed

lemma executing_reports_execute:
  "executing_reports (execute h t) k ts = executing_reports h k ts"
  by (induction ts arbitrary: k) (simp_all add: name_execute)

lemma compute_loop_eq:
  "compute_loop h lg k ts task =
     (foldl execute h ts, lg @ executing_reports h k ts,
      if ts = [] then task else Some (last ts))"
  by (induction ts arbitrary: h lg k task) (simp_all add: executing_reports_execute)

lemma executing_reports_cong:
  "\<forall>t\<in>set ts. name (h1 ! t) = name (h2 ! t) \<Longrightarrow>
   executing_reports h1 k ts = executing_reports h2 k ts"
  by (induction ts arbitrary: k) simp_all

lemma name_stage_inputs:
  "t < length h \<Longrightarrow> name (stage_inputs inputs op0 h first ! t) = name (h ! t)"
  by (simp add: stage_inputs_def add_input_dependencies_def set_output_def
      set_terminated_def Let_def nth_list_update nth_append)

lemma fit_inv_init:
  assumes "fresh h" "rt < length h"
  shows "fit_inv h \<lparr>heap = h, tasks = [], queue = [rt], count = 1, logged = lg\<rparr>"
  using assms by (simp add: fit_inv_def fresh_def)

lemma all_less_upt: "(\<forall>t<n. P t) = list_all P [0..<n]"
  by (auto simp: list_all_iff)

lemma acyclic_child_rel_increasing:
  assumes "\<forall>p<length h. \<forall>c\<in>set (children (h ! p)). p < c"
  shows "acyclic (child_rel h)"
proof -
  have "acyclic ((child_rel h)\<inverse>)"
  proof (rule acyclicI_order[where f = "\<lambda>x. x"])
    fix a b assume "(a, b) \<in> (child_rel h)\<inverse>"
    then show "b < a" using assms by (auto simp: child_rel_def)
  qed
  then show ?thesis by simp
qed

lemma closed_if_all_reachable:
  assumes "wf_heap h" "\<forall>t<length h. t \<in> reachable h rt" "rt < length h"
  shows "parents_reachable h rt"
  unfolding parents_reachable_def
proof (intro ballI)
  fix c p assume c: "c \<in> reachable h rt" and p: "p \<in> set (parents (h ! c))"
  have "c < length h" using reachable_lt[OF assms(1,3) c] .
  then have "p < length h" using wf_heap_parents[OF assms(1) _ p] by simp
  then show "p \<in> reachable h rt" using assms(2) by simp
qed

lemma reachable_all:
  assumes wf: "wf_heap h" and rt: "rt < length h"
    and par: "\<forall>t<length h. t \<noteq> rt \<longrightarrow> (\<exists>p\<in>set (parents (h ! t)). p < t)"
  shows "t < length h \<Longrightarrow> t \<in> reachable h rt"
proof (induction t rule: less_induct)
  case (less t)
  show ?case
  proof (cases "t = rt")
    case True
    then show ?thesis by (simp add: reachable_def)
  next
    case False
    then obtain p where p: "p \<in> set (parents (h ! t))" "p < t"
      using par less.prems by blast
    have pl: "p < length h" "t \<in> set (children (h ! p))"
      using wf_heap_parents[OF wf less.prems p(1)] by simp_all
    have "p \<in> reachable h rt" using less.IH[OF p(2) pl(1)] .
    then show ?thesis using reachable_child pl by blast
  qed
qed

lemma diamond_wf: "wf_heap diamond"
  unfolding wf_heap_def all_less_upt by (simp add: diamond_def mk_task_def upt_rec)

lemma diamond_fresh: "fresh diamond"
  unfolding fresh_def all_less_upt by (simp add: diamond_def mk_task_def upt_rec)

lemma diamond_acyclic: "acyclic (child_rel diamond)"
  by (rule acyclic_child_rel_increasing, unfold all_less_upt) (simp add: diamond_def mk_task_def upt_rec)

lemma diamond_closed: "parents_reachable diamond 0"
proof -
  have "\<forall>t<length diamond. t \<noteq> 0 \<longrightarrow> (\<exists>p\<in>set (parents (diamond ! t)). p < t)"
    unfolding all_less_upt by (simp add: diamond_def mk_task_def upt_rec)
  then have "\<forall>t<length diamond. t \<in> reachable diamond 0"
    using reachable_all[OF diamond_wf, of 0] by (simp add: diamond_def)
  then show ?thesis
    by (intro closed_if_all_reachable[OF diamond_wf]) (simp_all add: diamond_def)
qed

lemma precedes_edge:
  assumes wf: "wf_heap h" and ap: "after_parents h ts"
    and e: "(p, c) \<in> child_rel h" and c: "c \<in> set ts"
  shows "precedes ts p c"
proof -
  obtain j where j: "j < length ts" "ts ! j = c" using c by (auto simp: in_set_conv_nth)
  have pc: "p < length h" "c \<in> set (children (h ! p))" using e by (simp_all add: child_rel_def)
  have "p \<in> set (parents (h ! c))" using wf_heap_children[OF wf pc] by simp
  then have "p \<in> set (take j ts)" using ap j by (auto simp: after_parents_def)
  then obtain i where "i < j" "ts ! i = p" using j(1) by (auto simp: in_set_conv_nth)
  then show ?thesis using j by (auto simp: precedes_def)
qed

lemma precedes_trans:
  assumes "distinct ts" "precedes ts a b" "precedes ts b c"
  shows "precedes ts a c"
proof -
  obtain i j where ij: "i < j" "j < length ts" "ts ! i = a" "ts ! j = b"
    using assms(2) by (auto simp: precedes_def)
  obtain i' j' where ij': "i' < j'" "j' < length ts" "ts ! i' = b" "ts ! j' = c"
    using assms(3) by (auto simp: precedes_def)
  have "i' < length ts" using ij'(1,2) by simp
  then have "j = i'"
    using nth_eq_iff_index_eq[OF assms(1) ij(2), of i'] ij(4) ij'(3) by simp
  then have "i < j'" using ij(1) ij'(1) by simp
  then show ?thesis using ij(3) ij'(2,4) by (auto simp: precedes_def)
qed

lemma precedes_irrefl: "distinct ts \<Longrightarrow> \<not> precedes ts a a"
  by (auto simp: precedes_def nth_eq_iff_index_eq)

lemma precedes_left: "precedes ts a b \<Longrightarrow> a \<in> set ts"
  by (auto simp: precedes_def)

lemma precedes_path:
  assumes wf: "wf_heap h" and ap: "after_parents h ts" and d: "distinct ts"
    and path: "(a, b) \<in> (child_rel h)\<^sup>+"
  shows "b \<in> set ts \<Longrightarrow> precedes ts a b"
  using path
proof (induction rule: trancl_induct)
  case (base y)
  then show ?case using precedes_edge[OF wf ap] by blast
next
  case (step y z)
  have yz: "precedes ts y z" using precedes_edge[OF wf ap step.hyps(2) step.prems] .
  then have "precedes ts a y" using step.IH precedes_left by blast
  then show ?case using precedes_trans[OF d _ yz] by blast
qed

lemma inv_cycle_step:
  assumes "fit_inv h st" "wf_heap h" "queue st \<noteq> []" "inv_cycle lg0 h rt st"
  shows "inv_cycle lg0 h rt (fit_step st)"
proof -
  obtain new where new: "logged st = lg0 @ new"
    and alt: "Error ''Loop detected... Please check tasks dependencies.'' \<in> set new \<or>
         (rt \<in> set (queue st) \<union> set (tasks st) \<and>
          (\<forall>p\<in>set (tasks st). \<forall>c\<in>set (children (h ! p)).
              c \<in> set (queue st) \<union> set (tasks st)))"
    using assms(4) unfolding inv_cycle_def by blast
  show ?thesis
    using assms(1-3)
  proof (cases rule: fit_step_cases)
    case (error t q)
    have "logged (fit_step st) =
        lg0 @ (new @ [Error ''Loop detected... Please check tasks dependencies.''])"
      using error(6) new by simp
    then show ?thesis unfolding inv_cycle_def by (intro exI conjI, assumption) simp
  next
    case (requeue t q)
    have "set (queue (fit_step st)) = set (queue st)" using requeue(1,6) by auto
    moreover have "logged (fit_step st) = lg0 @ new" "tasks (fit_step st) = tasks st"
      using requeue(6) new by simp_all
    ultimately show ?thesis using alt unfolding inv_cycle_def by auto
  next
    case (drop t q)
    have "set (queue (fit_step st)) \<union> set (tasks st) = set (queue st) \<union> set (tasks st)"
      using drop(1,3,4) by auto
    moreover have "logged (fit_step st) = lg0 @ new" "tasks (fit_step st) = tasks st"
      using drop(4) new by simp_all
    ultimately show ?thesis using alt unfolding inv_cycle_def by auto
  next
    case (ready t q)
    have lg: "logged (fit_step st) = lg0 @ new" using ready(5) new by simp
    have tq: "tasks (fit_step st) = tasks st @ [t]"
      "queue (fit_step st) = children (h ! t) @ q" using ready(5) by simp_all
    show ?thesis
    proof (cases "Error ''Loop detected... Please check tasks dependencies.'' \<in> set new")
      case True
      then show ?thesis using lg unfolding inv_cycle_def by blast
    next
      case False
      then have A: "rt \<in> set (queue st) \<union> set (tasks st)"
        and B: "\<forall>p\<in>set (tasks st). \<forall>c\<in>set (children (h ! p)).
              c \<in> set (queue st) \<union> set (tasks st)"
        using alt by blast+
      have S: "set (queue st) \<union> set (tasks st)
          \<subseteq> set (queue (fit_step st)) \<union> set (tasks (fit_step st))"
        using ready(1) tq by auto
      have "rt \<in> set (queue (fit_step st)) \<union> set (tasks (fit_step st))"
        using A S by blast
      moreover have "\<forall>p\<in>set (tasks (fit_step st)). \<forall>c\<in>set (children (h ! p)).
              c \<in> set (queue (fit_step st)) \<union> set (tasks (fit_step st))"
      proof (intro ballI)
        fix p c assume p: "p \<in> set (tasks (fit_step st))" and c: "c \<in> set (children (h ! p))"
        show "c \<in> set (queue (fit_step st)) \<union> set (tasks (fit_step st))"
        proof (cases "p = t")
          case True
          then show ?thesis using c tq by simp
        next
          case False
          then have "p \<in> set (tasks st)" using p tq by simp
          then show ?thesis using B c S by blast
        qed
      qed
      ultimately show ?thesis using lg unfolding inv_cycle_def by blast
    qed
  qed
qed

lemma closed_contains_reachable:
  assumes rt: "rt \<in> S" and cl: "\<forall>p\<in>S. p < length h \<longrightarrow> (\<forall>c\<in>set (children (h ! p)). c \<in> S)"
  shows "t \<in> reachable h rt \<Longrightarrow> t \<in> S"
proof -
  assume "t \<in> reachable h rt"
  then have "(rt, t) \<in> (child_rel h)\<^sup>*" by (simp add: reachable_def)
  then show ?thesis
  proof (induction rule: rtrancl_induct)
    case base
    show ?case using rt .
  next
    case (step y z)
    then show ?case using cl by (auto simp: child_rel_def)
  qed
qed

lemma cycle3_wf: "wf_heap cycle3"
  unfolding wf_heap_def all_less_upt by (simp add: cycle3_def mk_task_def upt_rec)

lemma cycle3_fresh: "fresh cycle3"
  unfolding fresh_def all_less_upt by (simp add: cycle3_def mk_task_def upt_rec)

lemma cycle3_reachable: "1 \<in> reachable cycle3 0"
proof -
  have "(0, 1) \<in> child_rel cycle3" by (simp add: child_rel_def cycle3_def mk_task_def)
  then show ?thesis unfolding reachable_def by blast
qed

lemma cycle3_edge: "(2, 1) \<in> (child_rel cycle3)\<^sup>*"
proof -
  have "(2, 1) \<in> child_rel cycle3" by (simp add: child_rel_def cycle3_def mk_task_def)
  then show ?thesis by blast
qed

lemma cycle3_cycle: "(2, 2) \<in> (child_rel cycle3)\<^sup>+"
proof -
  have "(2, 1) \<in> child_rel cycle3" "(1, 2) \<in> child_rel cycle3"
    by (simp_all add: child_rel_def cycle3_def mk_task_def)
  then show ?thesis by (meson trancl.simps)
qed

lemma inv_fifo_step:
  assumes "fit_inv h st" "wf_heap h" "queue st \<noteq> []" "inv_fifo a b h st" "a \<noteq> b"
  shows "inv_fifo a b h (fit_step st)"
proof (cases "\<exists>xs ys. tasks st = xs @ a # ys \<and> b \<notin> set xs")
  case True
  then obtain xs ys where xy: "tasks st = xs @ a # ys" "b \<notin> set xs" by blast
  show ?thesis
    using assms(1-3)
  proof (cases rule: fit_step_cases)
    case (ready t q)
    then have "tasks (fit_step st) = xs @ a # (ys @ [t])" using xy by simp
    then show ?thesis using xy(2) unfolding inv_fifo_def by blast
  next
    case (error t q)
    then have "tasks (fit_step st) = xs @ a # ys" using xy by simp
    then show ?thesis using xy(2) unfolding inv_fifo_def by blast
  next
    case (requeue t q)
    then have "tasks (fit_step st) = xs @ a # ys" using xy by simp
    then show ?thesis using xy(2) unfolding inv_fifo_def by blast
  next
    case (drop t q)
    then have "tasks (fit_step st) = xs @ a # ys" using xy by simp
    then show ?thesis using xy(2) unfolding inv_fifo_def by blast
  qed
next
  case False
  then have a: "a \<notin> set (tasks st)" and b: "b \<notin> set (tasks st)"
    and pa: "\<forall>p\<in>set (parents (h ! a)). p \<in> set (tasks st)"
    and "\<exists>q1 q2. queue st = q1 @ a # q2 \<and> b \<notin> set q2"
    using assms(4) unfolding inv_fifo_def by blast+
  then obtain q1 q2 where q12: "queue st = q1 @ a # q2" "b \<notin> set q2" by blast
  show ?thesis
  proof (cases q2 rule: rev_cases)
    case Nil
    show ?thesis
      using assms(1-3)
    proof (cases rule: fit_step_cases)
      case (ready t q)
      then have "t = a" using q12(1) Nil by simp
      then have "tasks (fit_step st) = tasks st @ a # []" using ready(5) by simp
      then show ?thesis using b unfolding inv_fifo_def by blast
    next
      case (error t q)
      then have "t = a" using q12(1) Nil by simp
      then show ?thesis using error(4) pa by blast
    next
      case (requeue t q)
      then have "t = a" using q12(1) Nil by simp
      then show ?thesis using requeue(4) pa by blast
    next
      case (drop t q)
      then have "t = a" using q12(1) Nil by simp
      then show ?thesis using drop(3) a by blast
    qed
  next
    case (snoc q2' u)
    have nb: "u \<noteq> b" "b \<notin> set q2'" using q12(2) snoc by simp_all
    show ?thesis
      using assms(1-3)
    proof (cases rule: fit_step_cases)
      case (ready t q)
      then have tq: "t = u" "q = q1 @ a # q2'" using q12(1) snoc by simp_all
      show ?thesis
      proof (cases "u = a")
        case True
        then have "tasks (fit_step st) = tasks st @ a # []" using ready(5) tq by simp
        then show ?thesis using b unfolding inv_fifo_def by blast
      next
        case False
        have "queue (fit_step st) = (children (h ! t) @ q1) @ a # q2'"
          using ready(5) tq by simp
        moreover have "tasks (fit_step st) = tasks st @ [u]" using ready(5) tq by simp
        ultimately show ?thesis
          using a b pa nb False unfolding inv_fifo_def by fastforce
      qed
    next
      case (error t q)
      then have "queue (fit_step st) = q1 @ a # q2'" "tasks (fit_step st) = tasks st"
        using q12(1) snoc by simp_all
      then show ?thesis using a b pa nb unfolding inv_fifo_def by fastforce
    next
      case (requeue t q)
      then have "queue (fit_step st) = (t # q1) @ a # q2'" "tasks (fit_step st) = tasks st"
        using q12(1) snoc by simp_all
      then show ?thesis using a b pa nb unfolding inv_fifo_def by fastforce
    next
      case (drop t q)
      then have "queue (fit_step st) = q1 @ a # q2'" "tasks (fit_step st) = tasks st"
        using q12(1) snoc by simp_all
      then show ?thesis using a b pa nb unfolding inv_fifo_def by fastforce
    qed
  qed
qed

lemma tree4_wf: "wf_heap tree4"
  unfolding wf_heap_def all_less_upt by (simp add: tree4_def mk_task_def upt_rec)

lemma tree4_mid_inv: "fit_inv tree4 tree4_mid"
  unfolding fit_inv_def all_less_upt
  by (simp add: tree4_def tree4_mid_def mk_task_def upt_rec)

lemma tree4_mid_eligible:
  "\<not> is_terminated (heap tree4_mid) 1" "\<not> is_waiting (heap tree4_mid) 1"
  "\<not> is_terminated (heap tree4_mid) 3" "\<not> is_waiting (heap tree4_mid) 3"
  by (simp_all add: tree4_mid_def mk_task_def is_terminated_def is_waiting_def)

lemma two_sources_wf: "wf_heap two_sources"
  unfolding wf_heap_def all_less_upt by (simp add: two_sources_def mk_task_def upt_rec)

lemma two_sources_fresh: "fresh two_sources"
  unfolding fresh_def all_less_upt by (simp add: two_sources_def mk_task_def upt_rec)

lemma two_sources_acyclic: "acyclic (child_rel two_sources)"
  by (rule acyclic_child_rel_increasing, unfold all_less_upt)
    (simp add: two_sources_def mk_task_def upt_rec)

lemma two_sources_reachable: "2 \<in> reachable two_sources 0"
proof -
  have "(0, 2) \<in> child_rel two_sources"
    by (simp add: child_rel_def two_sources_def mk_task_def)
  then show ?thesis unfolding reachable_def by blast
qed

text \<open>Termination of the loop for any flags of the tasks.\<close>

lemma loop_inv_step:
  assumes inv: "loop_inv h st" and wf: "wf_heap h" and ne: "queue st \<noteq> []"
  shows "loop_inv h (fit_step st) \<and> fit_measure (fit_step st) < fit_measure st \<and>
         (\<exists>new. logged (fit_step st) = logged st @ new)"
proof -
  obtain q t where qt: "queue st = q @ [t]"
    using ne by (metis append_butlast_last_id)
  have t: "t < length h" and tl: "t < length (heap st)"
    using inv qt by (simp_all add: loop_inv_def)
  have ch: "children (heap st ! t) = children (h ! t)"
    using inv t by (simp add: loop_inv_def)
  have chl: "\<forall>c\<in>set (children (h ! t)). c < length h"
    using wf_heap_children[OF wf t] by blast
  have c0: "0 \<le> count st" using inv by (simp add: loop_inv_def)
  have len: "length (heap st) = length h" using inv by (simp add: loop_inv_def)
  have same: "\<forall>i<length h. children (heap st ! i) = children (h ! i)"
    using inv by (simp add: loop_inv_def)
  have qr: "\<forall>x\<in>set q. x < length h" using inv qt by (simp add: loop_inv_def)
  consider (error) "\<not> is_terminated (heap st) t" "is_waiting (heap st) t" "count st = 0"
    | (requeue) "\<not> is_terminated (heap st) t" "is_waiting (heap st) t" "count st \<noteq> 0"
    | (ready) "\<not> is_terminated (heap st) t" "\<not> is_waiting (heap st) t"
    | (drop) "is_terminated (heap st) t"
    by blast
  then show ?thesis
  proof cases
    case error
    then have s: "fit_step st = st\<lparr>queue := q,
         logged := logged st @ [Error ''Loop detected... Please check tasks dependencies.'']\<rparr>"
      using qt by (simp add: fit_step_def Let_def)
    show ?thesis
      unfolding s using len same qr c0 qt by (simp add: loop_inv_def fit_measure_def)
  next
    case requeue
    then have s: "fit_step st = st\<lparr>queue := [t] @ q, count := count st - 1\<rparr>"
      using qt by (simp add: fit_step_def Let_def)
    show ?thesis
      unfolding s using len same qr c0 qt t requeue(3)
      by (simp add: loop_inv_def fit_measure_def)
  next
    case drop
    then have s: "fit_step st = st\<lparr>queue := q\<rparr>"
      using qt by (simp add: fit_step_def Let_def)
    show ?thesis
      unfolding s using len same qr c0 qt by (simp add: loop_inv_def fit_measure_def)
  next
    case ready
    let ?h' = "(heap st)[t := (heap st ! t)\<lparr>terminated := True\<rparr>]"
    let ?f = "\<lambda>t::'a task. if terminated t then 0 else 2 * length (children t) + 1"
    have s: "fit_step st = st\<lparr>heap := ?h', tasks := tasks st @ [t],
         queue := children (h ! t) @ q,
         count := count st + int (length (children (h ! t)))\<rparr>"
      using ready qt ch by (simp add: fit_step_def Let_def set_terminated_def)
    have nt: "\<not> terminated (heap st ! t)" using ready(1) by (simp add: is_terminated_def)
    have "sum_list (map ?f ?h') + ?f (heap st ! t)
        = sum_list (map ?f (heap st)) + ?f ((heap st ! t)\<lparr>terminated := True\<rparr>)"
      using sum_list_map_update[OF tl] .
    then have m: "sum_list (map ?f ?h') + (2 * length (children (h ! t)) + 1)
        = sum_list (map ?f (heap st))"
      using nt ch by simp
    have same': "\<forall>i<length h. children (?h' ! i) = children (h ! i)"
    proof (intro allI impI)
      fix i assume i: "i < length h"
      then have e: "children (heap st ! i) = children (h ! i)" using same by blast
      show "children (?h' ! i) = children (h ! i)"
      proof (cases "i = t")
        case True
        then show ?thesis using tl ch by simp
      next
        case False
        then show ?thesis using e by simp
      qed
    qed
    have inv': "loop_inv h (fit_step st)"
      unfolding s using len same' qr chl c0 by (auto simp: loop_inv_def)
    have "fit_measure (fit_step st) < fit_measure st"
      unfolding s using m c0 qt by (simp add: fit_measure_def)
    then show ?thesis using inv' s by simp
  qed
qed

lemma fit_loop_terminates:
  assumes "loop_inv h st" and "wf_heap h"
  shows "\<exists>st' new. fit_loop st = Some st' \<and> logged st' = logged st @ new"
  using assms(1)
proof (induction "fit_measure st" arbitrary: st rule: less_induct)
  case less
  show ?case
  proof (cases "queue st = []")
    case True
    then have "fit_loop st = Some st" by (subst fit_loop.simps) simp
    then show ?thesis by simp
  next
    case False
    have st: "loop_inv h (fit_step st)" "fit_measure (fit_step st) < fit_measure st"
      and lg: "\<exists>new. logged (fit_step st) = logged st @ new"
      using loop_inv_step[OF less.prems assms(2) False] by blast+
    obtain st' new where r: "fit_loop (fit_step st) = Some st'"
      "logged st' = logged (fit_step st) @ new"
      using less.hyps[OF st(2) st(1)] by blast
    obtain new0 where n0: "logged (fit_step st) = logged st @ new0" using lg by blast
    have "fit_loop st = fit_loop (fit_step st)"
      using False by (subst fit_loop.simps) simp
    then have "fit_loop st = Some st' \<and> logged st' = logged st @ (new0 @ new)"
      using r n0 by simp
    then show ?thesis by blast
  qed
qed

lemma fit_returns:
  assumes "wf_heap h" "rt < length h"
  shows "\<exists>w' new. fit rt \<lparr>w_heap = h, self_tasks = ts0, w_logged = lg0\<rparr> = Some w' \<and>
           w_logged w' = lg0 @ new"
proof -
  have "loop_inv h \<lparr>heap = h, tasks = [], queue = [rt], count = 1, logged = lg0\<rparr>"
    using assms(2) by (simp add: loop_inv_def)
  then obtain st' new where "fit_loop \<lparr>heap = h, tasks = [], queue = [rt], count = 1,
      logged = lg0\<rparr> = Some st'" "logged st' = lg0 @ new"
    using fit_loop_terminates[OF _ assms(1)] by fastforce
  then have "fit rt \<lparr>w_heap = h, self_tasks = ts0, w_logged = lg0\<rparr>
      = Some \<lparr>w_heap = reset_tasks (heap st') (tasks st'), self_tasks = Some (tasks st'),
              w_logged = lg0 @ (new @ [Info ''The pipeline was fitted without error.''])\<rparr>"
    by (simp add: fit_def)
  then show ?thesis by fastforce
qed

lemma cycle2_done_wf: "wf_heap cycle2_done"
  unfolding wf_heap_def all_less_upt by (simp add: cycle2_done_def mk_task_def upt_rec)

text \<open>A cycle on or upstream of a reachable task, no task terminated: the error is reported.\<close>

lemma fit_cycle_error:
  assumes wf: "wf_heap h" and fr: "fresh h" and rt: "rt < length h"
    and c: "c \<in> reachable h rt" and dc: "(d, c) \<in> (child_rel h)\<^sup>*"
    and cyc: "(d, d) \<in> (child_rel h)\<^sup>+"
  shows "\<exists>w' new.
     fit rt \<lparr>w_heap = h, self_tasks = ts0, w_logged = lg0\<rparr> = Some w' \<and>
     w_logged w' = lg0 @ new \<and>
     Error ''Loop detected... Please check tasks dependencies.'' \<in> set new"
proof -
  let ?st0 = "\<lparr>heap = h, tasks = [], queue = [rt], count = 1, logged = lg0\<rparr>"
  let ?I = "\<lambda>s. inv_order h s \<and> inv_cycle lg0 h rt s"
  have I0: "?I ?st0"
    by (simp add: inv_order_def after_parents_def inv_cycle_def)
  have step: "\<And>s. fit_inv h s \<Longrightarrow> ?I s \<Longrightarrow> queue s \<noteq> [] \<Longrightarrow> ?I (fit_step s)"
    using inv_order_step[OF _ wf] inv_cycle_step[OF _ wf] by blast
  obtain st' where st': "fit_loop ?st0 = Some st'" "queue st' = []" "fit_inv h st'"
    "inv_order h st'" "inv_cycle lg0 h rt st'"
    using fit_loop_rule[of h ?st0 ?I, OF fit_inv_init[OF fr rt] wf I0 step] by blast
  obtain new where new: "logged st' = lg0 @ new"
    and alt: "Error ''Loop detected... Please check tasks dependencies.'' \<in> set new \<or>
         (rt \<in> set (tasks st') \<and>
          (\<forall>p\<in>set (tasks st'). \<forall>c\<in>set (children (h ! p)). c \<in> set (tasks st')))"
    using st'(5,2) unfolding inv_cycle_def by auto
  have err: "Error ''Loop detected... Please check tasks dependencies.'' \<in> set new"
  proof (rule ccontr)
    assume "\<not> ?thesis"
    then have "rt \<in> set (tasks st')"
      and "\<forall>p\<in>set (tasks st'). \<forall>c\<in>set (children (h ! p)). c \<in> set (tasks st')"
      using alt by blast+
    then have "c \<in> set (tasks st')"
      using closed_contains_reachable[of rt "set (tasks st')" h c] c by blast
    have ap: "after_parents h (tasks st')" and di: "distinct (tasks st')"
      using st'(4) by (simp_all add: inv_order_def)
    have "d \<in> set (tasks st')"
    proof (cases "d = c")
      case True
      then show ?thesis using \<open>c \<in> set (tasks st')\<close> by simp
    next
      case False
      then have "(d, c) \<in> (child_rel h)\<^sup>+" using dc by (simp add: rtrancl_eq_or_trancl)
      then show ?thesis
        using precedes_path[OF wf ap di _ \<open>c \<in> set (tasks st')\<close>] precedes_left by blast
    qed
    then have "precedes (tasks st') d d"
      using precedes_path[OF wf ap di cyc] by blast
    then show False using precedes_irrefl[OF di] by blast
  qed
  have "fit rt \<lparr>w_heap = h, self_tasks = ts0, w_logged = lg0\<rparr>
      = Some \<lparr>w_heap = reset_tasks (heap st') (tasks st'), self_tasks = Some (tasks st'),
              w_logged = lg0 @ (new @ [Info ''The pipeline was fitted without error.''])\<rparr>"
    using st'(1) new by (simp add: fit_def)
  then show ?thesis using err by fastforce
qed

section \<open>Claims about the scheduler\<close>

text \<open>
  Claim C1, as amended.  Let the task graph be acyclic, with mutually consistent parent
  and child links, every task not terminated, and every parent of a task reachable from
  the root itself reachable from the root.  Then \<open>fit\<close> returns; the fitted order holds
  every task reachable from the root through child links exactly once, each task after
  all of its parents; the heap is left as it was.  A following \<open>compute\<close> executes the
  tasks of the order one after the other, once each, reports each of them, and returns
  the output of the last task of the order.
\<close>

theorem fit_then_compute_acyclic:
  assumes wf: "wf_heap h" and fr: "fresh h" and rt: "rt < length h"
    and ac: "acyclic (child_rel h)"
    and closed: "parents_reachable h rt"
  shows "\<exists>order lg.
     fit rt \<lparr>w_heap = h, self_tasks = ts0, w_logged = lg0\<rparr>
       = Some \<lparr>w_heap = h, self_tasks = Some order, w_logged = lg\<rparr> \<and>
     distinct order \<and> set order = reachable h rt \<and> after_parents h order \<and>
     compute inputs op0 \<lparr>w_heap = h, self_tasks = Some order, w_logged = lg\<rparr>
       = (\<lparr>w_heap = foldl execute (stage_inputs inputs op0 h (hd order)) order,
           self_tasks = Some order,
           w_logged = lg @ executing_reports h 0 order
                      @ [Info ''The pipeline was executed without error.'']\<rparr>,
          Inr (task_output
                (foldl execute (stage_inputs inputs op0 h (hd order)) order ! last order)))"
proof -
  let ?st0 = "\<lparr>heap = h, tasks = [], queue = [rt], count = 1, logged = lg0\<rparr>"
  let ?I = "\<lambda>s. inv_order h s \<and> inv_reach h rt s \<and> inv_pending h rt s"
  have I0: "?I ?st0"
    by (simp add: inv_order_def after_parents_def inv_reach_def inv_pending_def reachable_def)
  have step: "\<And>s. fit_inv h s \<Longrightarrow> ?I s \<Longrightarrow> queue s \<noteq> [] \<Longrightarrow> ?I (fit_step s)"
    using inv_order_step[OF _ wf] inv_reach_step[OF _ wf] inv_pending_step[OF _ wf _ _ rt]
    by blast
  obtain st' where st': "fit_loop ?st0 = Some st'" "queue st' = []" "fit_inv h st'"
    "inv_order h st'" "inv_reach h rt st'" "inv_pending h rt st'"
    using fit_loop_rule[of h ?st0 ?I, OF fit_inv_init[OF fr rt] wf I0 step] by blast
  let ?order = "tasks st'"
  let ?lg = "logged st' @ [Info ''The pipeline was fitted without error.'']"
  have fit_eq: "fit rt \<lparr>w_heap = h, self_tasks = ts0, w_logged = lg0\<rparr>
       = Some \<lparr>w_heap = h, self_tasks = Some ?order, w_logged = ?lg\<rparr>"
    using st'(1) reset_tasks_restores[OF st'(3) fr] by (simp add: fit_def)
  have sub: "set ?order \<subseteq> reachable h rt"
    using st'(5) by (auto simp: inv_reach_def)
  have sup: "reachable h rt \<subseteq> set ?order"
    using fit_complete[OF wf rt ac closed st'(6,2)] .
  have "rt \<in> reachable h rt" by (simp add: reachable_def)
  then have ne: "?order \<noteq> []" using sup by auto
  have names: "executing_reports (stage_inputs inputs op0 h (hd ?order)) 0 ?order
      = executing_reports h 0 ?order"
    using st'(3) by (intro executing_reports_cong) (simp add: fit_inv_def name_stage_inputs)
  have "compute inputs op0 \<lparr>w_heap = h, self_tasks = Some ?order, w_logged = ?lg\<rparr>
       = (\<lparr>w_heap = foldl execute (stage_inputs inputs op0 h (hd ?order)) ?order,
           self_tasks = Some ?order,
           w_logged = ?lg @ executing_reports h 0 ?order
                      @ [Info ''The pipeline was executed without error.'']\<rparr>,
          Inr (task_output
                (foldl execute (stage_inputs inputs op0 h (hd ?order)) ?order ! last ?order)))"
    using ne names by (simp add: compute_def compute_loop_eq)
  then show ?thesis
    using fit_eq st'(4) sub sup unfolding inv_order_def by blast
qed

text \<open>
  The amended claim on the diamond root \<rightarrow> left, root \<rightarrow> right, left \<rightarrow> join,
  right \<rightarrow> join, where the fitted order is root, right, left, join.
\<close>

theorem fit_then_compute_acyclic_witness:
  "wf_heap diamond \<and> fresh diamond \<and> 0 < length diamond \<and> acyclic (child_rel diamond) \<and>
   parents_reachable diamond 0 \<and>
   fit 0 \<lparr>w_heap = diamond, self_tasks = None, w_logged = []\<rparr>
     = Some \<lparr>w_heap = diamond, self_tasks = Some [0, 2, 1, 3],
             w_logged = [Info ''The pipeline was fitted without error.'']\<rparr> \<and>
   (\<exists>order lg.
     fit 0 \<lparr>w_heap = diamond, self_tasks = None, w_logged = []\<rparr>
       = Some \<lparr>w_heap = diamond, self_tasks = Some order, w_logged = lg\<rparr> \<and>
     distinct order \<and> set order = reachable diamond 0 \<and> after_parents diamond order \<and>
     compute 7 length \<lparr>w_heap = diamond, self_tasks = Some order, w_logged = lg\<rparr>
       = (\<lparr>w_heap = foldl execute (stage_inputs 7 length diamond (hd order)) order,
           self_tasks = Some order,
           w_logged = lg @ executing_reports diamond 0 order
                      @ [Info ''The pipeline was executed without error.'']\<rparr>,
          Inr (task_output
                (foldl execute (stage_inputs 7 length diamond (hd order)) order ! last order))))"
proof -
  have l: "0 < length diamond" by (simp add: diamond_def)
  have ev: "fit 0 \<lparr>w_heap = diamond, self_tasks = None, w_logged = []\<rparr>
     = Some \<lparr>w_heap = diamond, self_tasks = Some [0, 2, 1, 3],
             w_logged = [Info ''The pipeline was fitted without error.'']\<rparr>"
    by (simp add: fit_def fit_loop.simps fit_step_def is_terminated_def is_waiting_def
        set_terminated_def reset_tasks_def diamond_def mk_task_def Let_def)
  show ?thesis
    using diamond_wf diamond_fresh l diamond_acyclic diamond_closed ev
      fit_then_compute_acyclic[OF diamond_wf diamond_fresh l diamond_acyclic diamond_closed,
        of None "[]" 7 length]
    by blast
qed

text \<open>
  Claim C1 as stated fails on an acyclic graph with a second source: join has the parents
  root and other, and other is not reachable from root.  \<open>fit\<close> orders root, requeues
  join until the budget is used up, reports a loop and ends with the order \<open>[root]\<close>:
  join is reachable from root and is not in the order.
\<close>

theorem fit_two_sources_counterexample:
  "wf_heap two_sources \<and> fresh two_sources \<and> acyclic (child_rel two_sources) \<and>
   2 \<in> reachable two_sources 0 \<and>
   fit 0 \<lparr>w_heap = two_sources, self_tasks = None, w_logged = []\<rparr>
     = Some \<lparr>w_heap = two_sources, self_tasks = Some [0],
             w_logged = [Error ''Loop detected... Please check tasks dependencies.'',
                         Info ''The pipeline was fitted without error.'']\<rparr>"
proof -
  have "fit 0 \<lparr>w_heap = two_sources, self_tasks = None, w_logged = []\<rparr>
     = Some \<lparr>w_heap = two_sources, self_tasks = Some [0],
             w_logged = [Error ''Loop detected... Please check tasks dependencies.'',
                         Info ''The pipeline was fitted without error.'']\<rparr>"
    by (simp add: fit_def fit_loop.simps fit_step_def is_terminated_def is_waiting_def
        set_terminated_def reset_tasks_def two_sources_def mk_task_def Let_def)
  then show ?thesis
    using two_sources_wf two_sources_fresh two_sources_acyclic two_sources_reachable by simp
qed

text \<open>
  Claim C4, as amended.  For every task graph with consistent parent and child links and
  every root, whatever tasks are already terminated, the work-list loop of \<open>fit\<close> stops
  after finitely many iterations and \<open>fit\<close> returns, having only added reports.  If
  moreover no task is terminated when \<open>fit\<close> starts and a task \<open>d\<close> lies on a dependency
  cycle (of any length: a cycle through two or more tasks is one of them) and is, or is
  an ancestor of, a task \<open>c\<close> reachable from the root, then among the reports written is
  the error "Loop detected... Please check tasks dependencies.".
\<close>

theorem fit_cycle_terminates_reporting:
  assumes wf: "wf_heap h" and rt: "rt < length h"
  shows "\<exists>w' new.
     fit rt \<lparr>w_heap = h, self_tasks = ts0, w_logged = lg0\<rparr> = Some w' \<and>
     w_logged w' = lg0 @ new \<and>
     (fresh h \<longrightarrow> c \<in> reachable h rt \<longrightarrow> (d, c) \<in> (child_rel h)\<^sup>* \<longrightarrow>
      (d, d) \<in> (child_rel h)\<^sup>+ \<longrightarrow>
        Error ''Loop detected... Please check tasks dependencies.'' \<in> set new)"
proof -
  obtain w' new where w: "fit rt \<lparr>w_heap = h, self_tasks = ts0, w_logged = lg0\<rparr> = Some w'"
    "w_logged w' = lg0 @ new"
    using fit_returns[OF wf rt] by blast
  have "Error ''Loop detected... Please check tasks dependencies.'' \<in> set new"
    if a1: "fresh h" and a2: "c \<in> reachable h rt" and a3: "(d, c) \<in> (child_rel h)\<^sup>*"
      and a4: "(d, d) \<in> (child_rel h)\<^sup>+"
  proof -
    obtain w'' new' where w': "fit rt \<lparr>w_heap = h, self_tasks = ts0, w_logged = lg0\<rparr> = Some w''"
      "w_logged w'' = lg0 @ new'"
      "Error ''Loop detected... Please check tasks dependencies.'' \<in> set new'"
      using fit_cycle_error[OF wf a1 rt a2 a3 a4] by blast
    have "new' = new" using w w' by simp
    then show ?thesis using w'(3) by simp
  qed
  then show ?thesis using w by blast
qed

theorem fit_cycle_terminates_reporting_witness:
  "wf_heap cycle3 \<and> 0 < length cycle3 \<and> fresh cycle3 \<and> 1 \<in> reachable cycle3 0 \<and>
   (2, 1) \<in> (child_rel cycle3)\<^sup>* \<and> (2, 2) \<in> (child_rel cycle3)\<^sup>+ \<and>
   (\<exists>w' new.
     fit 0 \<lparr>w_heap = cycle3, self_tasks = None, w_logged = []\<rparr> = Some w' \<and>
     w_logged w' = [] @ new \<and>
     Error ''Loop detected... Please check tasks dependencies.'' \<in> set new)"
proof -
  have l: "0 < length cycle3" by (simp add: cycle3_def)
  show ?thesis
    using cycle3_wf cycle3_fresh l cycle3_reachable cycle3_edge cycle3_cycle
      fit_cycle_terminates_reporting[OF cycle3_wf l, of None "[]" 1 2]
    by blast
qed

text \<open>
  Claim C4 as stated fails when a task of the cycle is already terminated.  Tasks \<open>a\<close>
  and \<open>b\<close> are each the parent and the child of the other, and \<open>b\<close> is terminated: \<open>a\<close>
  does not wait, is put in the order, its child \<open>b\<close> is dropped from the queue as
  terminated, and \<open>fit\<close> returns the order \<open>[a]\<close> with the message of success as its
  only report.
\<close>

theorem fit_terminated_cycle_counterexample:
  "wf_heap cycle2_done \<and>
   (0, 1) \<in> child_rel cycle2_done \<and> (1, 0) \<in> child_rel cycle2_done \<and>
   fit 0 \<lparr>w_heap = cycle2_done, self_tasks = None, w_logged = []\<rparr>
     = Some \<lparr>w_heap = cycle2_done, self_tasks = Some [0],
             w_logged = [Info ''The pipeline was fitted without error.'']\<rparr>"
proof -
  have "fit 0 \<lparr>w_heap = cycle2_done, self_tasks = None, w_logged = []\<rparr>
     = Some \<lparr>w_heap = cycle2_done, self_tasks = Some [0],
             w_logged = [Info ''The pipeline was fitted without error.'']\<rparr>"
    by (simp add: fit_def fit_loop.simps fit_step_def is_terminated_def is_waiting_def
        set_terminated_def reset_tasks_def cycle2_done_def mk_task_def Let_def)
  moreover have "(0, 1) \<in> child_rel cycle2_done" "(1, 0) \<in> child_rel cycle2_done"
    by (simp_all add: child_rel_def cycle2_done_def mk_task_def)
  ultimately show ?thesis using cycle2_done_wf by simp
qed

text \<open>
  Claim C9, as amended.  During \<open>fit\<close> the children of each newly ordered task are put
  at the front of the queue, while the next task is taken from the back: the traversal is
  first in, first out (breadth-first).  In any state of the loop, a queued task \<open>a\<close> that
  is not terminated and not waiting is appended to the order before every other task
  \<open>b\<close> that is not yet ordered and is not queued nearer the back than \<open>a\<close>; so among
  tasks that are eligible at the same time the one queued earliest comes first.
\<close>

theorem fit_first_in_first_out:
  assumes wf: "wf_heap h" and inv: "fit_inv h st"
    and q: "queue st = q1 @ a # q2"
    and a: "\<not> is_terminated (heap st) a" "\<not> is_waiting (heap st) a"
    and b: "b \<notin> set (tasks st)" "b \<notin> set q2" "a \<noteq> b"
  shows "(q2 = [] \<longrightarrow> tasks (fit_step st) = tasks st @ [a] \<and>
                      queue (fit_step st) = children (h ! a) @ q1) \<and>
         (\<exists>st'. fit_loop st = Some st' \<and>
            (\<exists>xs ys. tasks st' = xs @ a # ys \<and> b \<notin> set xs))"
proof -
  have al: "a < length h" using inv q by (simp add: fit_inv_def)
  have a1: "a \<notin> set (tasks st)" using a(1) is_terminated_inv[OF inv al] by simp
  have a2: "\<forall>p\<in>set (parents (h ! a)). p \<in> set (tasks st)"
    using a(2) is_waiting_inv[OF inv wf al] by simp
  have ne: "queue st \<noteq> []" using q by simp
  have first: "tasks (fit_step st) = tasks st @ [a] \<and>
               queue (fit_step st) = children (h ! a) @ q1" if "q2 = []"
    using inv wf ne
  proof (cases rule: fit_step_cases)
    case (ready t q)
    then show ?thesis using q that by simp
  next
    case (error t q)
    then have "t = a" using q that by simp
    then show ?thesis using error(4) a2 by blast
  next
    case (requeue t q)
    then have "t = a" using q that by simp
    then show ?thesis using requeue(4) a2 by blast
  next
    case (drop t q)
    then have "t = a" using q that by simp
    then show ?thesis using drop(3) a1 by blast
  qed
  have I0: "inv_fifo a b h st"
    unfolding inv_fifo_def using a1 a2 b(1,2) q by blast
  have step: "\<And>s. fit_inv h s \<Longrightarrow> inv_fifo a b h s \<Longrightarrow> queue s \<noteq> [] \<Longrightarrow>
      inv_fifo a b h (fit_step s)"
    using inv_fifo_step[OF _ wf _ _ b(3)] by blast
  obtain st' where st': "fit_loop st = Some st'" "queue st' = []" "inv_fifo a b h st'"
    using fit_loop_rule[of h st "inv_fifo a b h", OF inv wf I0 step] by blast
  have "\<exists>xs ys. tasks st' = xs @ a # ys \<and> b \<notin> set xs"
    using st'(2,3) unfolding inv_fifo_def by simp
  then show ?thesis using st'(1) first by blast
qed

text \<open>
  The amended claim on the tree root \<rightarrow> a, root \<rightarrow> b, b \<rightarrow> b1, in the state
  reached once root and b are ordered: the queue is \<open>[b1, a]\<close>, and a is next.
\<close>

theorem fit_first_in_first_out_witness:
  "wf_heap tree4 \<and> fit_inv tree4 tree4_mid \<and> queue tree4_mid = [3] @ 1 # [] \<and>
   \<not> is_terminated (heap tree4_mid) 1 \<and> \<not> is_waiting (heap tree4_mid) 1 \<and>
   3 \<notin> set (tasks tree4_mid) \<and> 3 \<notin> set [] \<and> (1::nat) \<noteq> 3 \<and>
   tasks (fit_step tree4_mid) = tasks tree4_mid @ [1] \<and>
   queue (fit_step tree4_mid) = children (tree4 ! 1) @ [3] \<and>
   (\<exists>st'. fit_loop tree4_mid = Some st' \<and>
      (\<exists>xs ys. tasks st' = xs @ 1 # ys \<and> 3 \<notin> set xs))"
proof -
  have q: "queue tree4_mid = [3] @ 1 # []" by (simp add: tree4_mid_def)
  have b: "3 \<notin> set (tasks tree4_mid)" "3 \<notin> set ([]::nat list)" "(1::nat) \<noteq> 3"
    by (simp_all add: tree4_mid_def)
  show ?thesis
    using fit_first_in_first_out[OF tree4_wf tree4_mid_inv q tree4_mid_eligible(1,2) b]
      tree4_wf tree4_mid_inv q tree4_mid_eligible(1,2) b
    by simp
qed

text \<open>
  Claim C9 as stated fails on that tree.  After root and b are ordered, b1 (the child of
  b, discovered last) and a (discovered earlier, with b) are both neither terminated nor
  waiting; the order goes on with a, and is root, b, a, b1: a depth-first traversal would
  give root, b, b1, a.
\<close>

theorem fit_not_depth_first_counterexample:
  "fit_step (fit_step \<lparr>heap = tree4, tasks = [], queue = [0], count = 1, logged = []\<rparr>)
     = tree4_mid \<and>
   \<not> is_terminated (heap tree4_mid) 1 \<and> \<not> is_waiting (heap tree4_mid) 1 \<and>
   \<not> is_terminated (heap tree4_mid) 3 \<and> \<not> is_waiting (heap tree4_mid) 3 \<and>
   fit 0 \<lparr>w_heap = tree4, self_tasks = None, w_logged = []\<rparr>
     = Some \<lparr>w_heap = tree4, self_tasks = Some [0, 2, 1, 3],
             w_logged = [Info ''The pipeline was fitted without error.'']\<rparr>"
proof -
  have "fit_step (fit_step \<lparr>heap = tree4, tasks = [], queue = [0], count = 1, logged = []\<rparr>)
     = tree4_mid"
    by (simp add: fit_step_def is_terminated_def is_waiting_def set_terminated_def
        tree4_def tree4_mid_def mk_task_def Let_def)
  moreover have "fit 0 \<lparr>w_heap = tree4, self_tasks = None, w_logged = []\<rparr>
     = Some \<lparr>w_heap = tree4, self_tasks = Some [0, 2, 1, 3],
             w_logged = [Info ''The pipeline was fitted without error.'']\<rparr>"
    by (simp add: fit_def fit_loop.simps fit_step_def is_terminated_def is_waiting_def
        set_terminated_def reset_tasks_def tree4_def mk_task_def Let_def)
  ultimately show ?thesis using tree4_mid_eligible by simp
qed

text \<open>
  Claim C2 at a failing input: two tasks that depend on each other.  The first pass
  requeues the root and takes the budget to zero, the second reports the loop; \<open>fit\<close>
  then goes on, leaves the loop with an empty queue and an empty order, and reports that
  the pipeline was fitted without error.
\<close>

theorem fit_reports_loop_then_success:
  "fit 0 \<lparr>w_heap = cycle2, self_tasks = None, w_logged = []\<rparr>
     = Some \<lparr>w_heap = cycle2, self_tasks = Some [],
             w_logged = [Error ''Loop detected... Please check tasks dependencies.'',
                         Info ''The pipeline was fitted without error.'']\<rparr>"
  by (simp add: fit_def fit_loop.simps fit_step_def is_terminated_def is_waiting_def
      set_terminated_def reset_tasks_def cycle2_def mk_task_def Let_def)

text \<open>
  Claim C3 at its failing inputs.  On a Pipeline that was never fitted \<open>self.tasks\<close>
  does not exist and \<open>compute\<close> raises AttributeError before it reports anything.  On an
  empty fitted order \<open>compute\<close> reports the warning, executes no task, reports that the
  pipeline was executed without error, and then raises UnboundLocalError at
  \<open>return task.output\<close>, the loop variable \<open>task\<close> never having been bound.
\<close>

theorem compute_without_order_raises:
  "compute inputs op0 \<lparr>w_heap = h, self_tasks = None, w_logged = lg\<rparr>
     = (\<lparr>w_heap = h, self_tasks = None, w_logged = lg\<rparr>, Inl AttributeError) \<and>
   compute inputs op0 \<lparr>w_heap = h, self_tasks = Some [], w_logged = lg\<rparr>
     = (\<lparr>w_heap = h, self_tasks = Some [],
         w_logged = lg @ [Warning ''Pipeline not fitted... Nothing to compute.'',
                          Info ''The pipeline was executed without error.'']\<rparr>,
        Inl UnboundLocalError)"
  by (simp add: compute_def)

section \<open>The Transformer: lemmas\<close>

subsection \<open>Rounding\<close>

text \<open>
  \<open>binade\<close> finds the exponent; integers up to \<open>2\<^sup>5\<^sup>3\<close> and, more generally, the
  multiples \<open>m 2\<^sup>j\<close> with \<open>|m| \<le> 2\<^sup>5\<^sup>3\<close> and \<open>j \<ge> -1074\<close> below \<open>2\<^sup>1\<^sup>0\<^sup>2\<^sup>4\<close> are doubles;
  rounding a double gives it back.
\<close>

lemma powi_bitlen:
  assumes "0 < (p::int)"
  shows "(2::rat) powi (bitlen p - 1) \<le> of_int p" "(of_int p :: rat) < 2 powi bitlen p"
proof -
  have b: "2 ^ nat (bitlen p - 1) \<le> p" "p < 2 ^ nat (bitlen p)"
    using bitlen_bounds[OF assms] by simp_all
  have b1: "1 \<le> bitlen p" using assms by (simp add: bitlen_alt_def)
  have "(of_int (2 ^ nat (bitlen p - 1)) :: rat) \<le> of_int p" using b(1) by (simp only: of_int_le_iff)
  then show "(2::rat) powi (bitlen p - 1) \<le> of_int p"
    using b1 by (simp add: power_int_def)
  have "(of_int p :: rat) < of_int (2 ^ nat (bitlen p))" using b(2) by (simp only: of_int_less_iff)
  then show "(of_int p :: rat) < 2 powi bitlen p"
    using b1 by (simp add: power_int_def)
qed

lemma binade_bounds:
  assumes "x \<noteq> 0"
  shows "2 powi binade x \<le> \<bar>x\<bar>" "\<bar>x\<bar> < 2 powi (binade x + 1)"
proof -
  obtain p q where pq: "quotient_of \<bar>x\<bar> = (p, q)" by (cases "quotient_of \<bar>x\<bar>")
  have q: "0 < q" using quotient_of_denom_pos[OF pq] .
  have x: "\<bar>x\<bar> = of_int p / of_int q" using quotient_of_div[OF pq] .
  have "0 < \<bar>x\<bar>" using assms by simp
  then have p: "0 < p" using x q by (simp add: zero_less_divide_iff)
  let ?e = "bitlen p - bitlen q"
  have qr: "0 < (of_int q :: rat)" using q by simp
  have up: "\<bar>x\<bar> < 2 powi (?e + 1)"
  proof -
    have "of_int p < (2::rat) powi bitlen p" using powi_bitlen(2)[OF p] .
    also have "\<dots> = 2 powi (?e + 1) * 2 powi (bitlen q - 1)"
      by (simp add: power_int_add[symmetric])
    also have "\<dots> \<le> 2 powi (?e + 1) * of_int q"
      using powi_bitlen(1)[OF q] by (simp add: mult_left_mono)
    finally show ?thesis using qr x by (simp add: pos_divide_less_eq)
  qed
  have lo: "2 powi (?e - 1) \<le> \<bar>x\<bar>"
  proof -
    have "(2::rat) powi (?e - 1) * of_int q \<le> 2 powi (?e - 1) * 2 powi bitlen q"
      using powi_bitlen(2)[OF q] by (simp add: mult_left_mono)
    also have "\<dots> = 2 powi (bitlen p - 1)" by (simp add: power_int_add[symmetric])
    also have "\<dots> \<le> of_int p" using powi_bitlen(1)[OF p] .
    finally show ?thesis using qr x by (simp add: pos_le_divide_eq)
  qed
  show "2 powi binade x \<le> \<bar>x\<bar>"
    using lo by (simp add: binade_def pq Let_def)
  show "\<bar>x\<bar> < 2 powi (binade x + 1)"
    using up by (auto simp add: binade_def pq Let_def not_le)
qed

lemma powi_less_mono:
  assumes "(2::rat) powi a \<le> x" "x < 2 powi (b + 1)"
  shows "a \<le> b"
proof (rule ccontr)
  assume "\<not> a \<le> b"
  then have "b + 1 \<le> a" by simp
  then have "(2::rat) powi (b + 1) \<le> 2 powi a" by (simp add: power_int_increasing)
  then show False using assms by simp
qed


lemma round_half_even_int: "round_half_even (of_int k) = k"
  by (simp add: round_half_even_def)

lemma round_half_even_bound:
  assumes "\<bar>x\<bar> \<le> of_int N"
  shows "\<bar>round_half_even x\<bar> \<le> N"
proof -
  have lo: "- of_int N \<le> x" and hi: "x \<le> of_int N" using assms by (simp_all add: abs_le_iff)
  have f1: "- N \<le> \<lfloor>x\<rfloor>" using lo by (simp add: le_floor_iff)
  have f2: "\<lfloor>x\<rfloor> \<le> N" using hi by (simp add: floor_le_iff)
  have f3: "\<lfloor>x\<rfloor> + 1 \<le> N" if "x \<noteq> of_int \<lfloor>x\<rfloor>"
  proof -
    have "of_int \<lfloor>x\<rfloor> \<le> x" by (rule of_int_floor_le)
    then have "of_int \<lfloor>x\<rfloor> < x" using that by (simp only: less_le not_sym simp_thms)
    then have "of_int \<lfloor>x\<rfloor> < (of_int N :: rat)" using hi by simp
    then have "\<lfloor>x\<rfloor> < N" by (simp only: of_int_less_iff)
    then show ?thesis by simp
  qed
  show ?thesis
  proof (cases "x = of_int \<lfloor>x\<rfloor>")
    case True
    then have "x - of_int \<lfloor>x\<rfloor> = 0" by simp
    then have "round_half_even x = \<lfloor>x\<rfloor>" by (simp add: round_half_even_def Let_def)
    then show ?thesis using f1 f2 by simp
  next
    case False
    have "round_half_even x = \<lfloor>x\<rfloor> \<or> round_half_even x = \<lfloor>x\<rfloor> + 1"
      by (simp add: round_half_even_def Let_def)
    then show ?thesis using f1 f2 f3[OF False] by auto
  qed
qed

lemma fl_representable:
  assumes m: "\<bar>m\<bar> \<le> 2 ^ 53" and j: "- 1074 \<le> j"
    and b: "\<bar>of_int m * 2 powi j\<bar> < (2::rat) ^ 1024"
  shows "fl (of_int m * 2 powi j) = Val (of_int m * 2 powi j)"
proof (cases "m = 0")
  case True
  then show ?thesis by (simp add: fl_def)
next
  case False
  let ?x = "of_int m * 2 powi j :: rat"
  let ?e = "binade ?x"
  have x: "?x \<noteq> 0" using False by simp
  have am: "\<bar>?x\<bar> = of_int \<bar>m\<bar> * 2 powi j" by (simp add: abs_mult)
  have m53: "(of_int \<bar>m\<bar> :: rat) \<le> 2 ^ 53"
  proof -
    have "(of_int \<bar>m\<bar> :: rat) \<le> of_int (2 ^ 53)" using m by (simp only: of_int_le_iff)
    then show ?thesis by simp
  qed
  have x53: "\<bar>?x\<bar> \<le> 2 powi (j + 53)"
  proof -
    have "\<bar>?x\<bar> \<le> 2 ^ 53 * 2 powi j" unfolding am using m53 by (simp add: mult_right_mono)
    also have "\<dots> = 2 powi (j + 53)" by (simp add: power_int_add)
    finally show ?thesis .
  qed
  have "(2::rat) powi (j + 53) < 2 powi (j + 53 + 1)" by (simp add: power_int_strict_increasing)
  then have "\<bar>?x\<bar> < 2 powi (j + 53 + 1)" using x53 by simp
  then have e53: "?e \<le> j + 53" using powi_less_mono[OF binade_bounds(1)[OF x]] by blast
  define i where "i = max ?e (- 1022) - 52"
  define u :: rat where "u = 2 powi i"
  have up: "0 < u" by (simp add: u_def)
  have "\<exists>r. ?x / u = of_int r"
  proof (cases "?e \<le> j + 52")
    case True
    then have ij: "i \<le> j" using j by (simp add: i_def max_def)
    have "?x / u = of_int m * 2 powi (j - i)" by (simp add: u_def power_int_diff)
    also have "\<dots> = of_int (m * 2 ^ nat (j - i))" using ij by (simp add: power_int_def)
    finally show ?thesis by blast
  next
    case F: False
    then have e: "?e = j + 53" using e53 by simp
    have i: "i = j + 1" using e j by (simp add: i_def max_def)
    have "(2::rat) powi (j + 53) \<le> \<bar>?x\<bar>" using binade_bounds(1)[OF x] e by simp
    then have "\<bar>?x\<bar> = 2 powi (j + 53)" using x53 by simp
    then have "of_int \<bar>m\<bar> * 2 powi j = (2::rat) ^ 53 * 2 powi j"
      unfolding am by (simp add: power_int_add)
    then have "(of_int \<bar>m\<bar> :: rat) = 2 ^ 53" by simp
    then have "(of_int \<bar>m\<bar> :: rat) = of_int (2 ^ 53)" by simp
    then have "\<bar>m\<bar> = 2 ^ 53" by (simp only: of_int_eq_iff)
    then have mm: "m = 2 ^ 53 \<or> m = - (2 ^ 53)" by (simp add: abs_if split: if_splits)
    have "?x / u = of_int m * (2 powi j / 2 powi (j + 1))" by (simp add: u_def i)
    also have "\<dots> = of_int m / 2" by (simp add: power_int_add)
    finally have "?x / u = of_int (2 ^ 52) \<or> ?x / u = of_int (- (2 ^ 52))"
      using mm by auto
    then show ?thesis by blast
  qed
  then obtain r where r: "?x / u = of_int r" by blast
  have "round_half_even (?x / u) = r" unfolding r by (rule round_half_even_int)
  then have "of_int (round_half_even (?x / u)) * u = (?x / u) * u" using r by simp
  also have "\<dots> = ?x" using up by simp
  finally have y: "of_int (round_half_even (?x / u)) * u = ?x" .
  show ?thesis
    using x y b by (simp add: fl_def Let_def flip: u_def i_def)
qed

lemma fl_of_int:
  assumes "\<bar>k\<bar> \<le> 2 ^ 53"
  shows "fl (of_int k) = Val (of_int k)"
proof -
  have "(of_int \<bar>k\<bar> :: rat) \<le> of_int (2 ^ 53)" using assms by (simp only: of_int_le_iff)
  then have "\<bar>of_int k :: rat\<bar> \<le> 2 ^ 53" by simp
  moreover have "(2::rat) ^ 53 < 2 ^ 1024" by simp
  ultimately have "\<bar>of_int k * 2 powi 0\<bar> < (2::rat) ^ 1024" by simp
  then show ?thesis using fl_representable[OF assms, of 0] by simp
qed

lemma fl_idem:
  assumes "fl x = Val y"
  shows "fl y = Val y"
proof (cases "x = 0")
  case True
  then have "y = 0" using assms by (simp add: fl_def)
  then show ?thesis by (simp add: fl_def)
next
  case False
  define i where "i = max (binade x) (- 1022) - 52"
  define u :: rat where "u = 2 powi i"
  define r where "r = round_half_even (x / u)"
  have up: "0 < u" by (simp add: u_def)
  have y: "y = of_int r * u" and b: "\<bar>of_int r * u\<bar> < 2 ^ 1024"
    using assms False by (auto simp: fl_def Let_def not_le simp flip: i_def u_def r_def split: if_splits)
  have "\<bar>x\<bar> < 2 powi (binade x + 1)" using binade_bounds(2)[OF False] .
  also have "\<dots> \<le> 2 powi (i + 53)" by (simp add: i_def power_int_increasing)
  also have "\<dots> = 2 ^ 53 * u" by (simp add: u_def power_int_add)
  finally have "\<bar>x\<bar> / u \<le> 2 ^ 53" using up by (simp add: pos_divide_le_eq)
  then have "\<bar>x / u\<bar> \<le> of_int (2 ^ 53)" using up by simp
  then have r53: "\<bar>r\<bar> \<le> 2 ^ 53" unfolding r_def by (rule round_half_even_bound)
  have "- 1074 \<le> i" by (simp add: i_def)
  then show ?thesis using fl_representable[OF r53 _ b[unfolded u_def]] y by (simp add: u_def)
qed



lemma fl_zero: "fl 0 = Val 0"
  by (simp add: fl_def)

lemma fl_one: "fl 1 = Val 1"
  using fl_of_int[of 1] by simp

lemma fl_numeral: "numeral k \<le> (2 ^ 53 :: int) \<Longrightarrow> fl (numeral k) = Val (numeral k)"
  using fl_of_int[of "numeral k"] by simp

lemma fl_of_nat: "int k \<le> 2 ^ 53 \<Longrightarrow> fl (of_nat k) = Val (of_nat k)"
  using fl_of_int[of "int k"] by simp

lemma fadd_zero_fl: "fadd (Val 0) (fl x) = fl x"
proof (cases "fl x")
  case (Val y)
  then show ?thesis using fl_idem[OF Val] by simp
qed simp_all

subsection \<open>The scaling methods and the split\<close>

lemma ebind_Inr: "ebind r f = Inr y \<longleftrightarrow> (\<exists>x. r = Inr x \<and> f x = Inr y)"
  by (cases r) (simp_all add: ebind_def)

lemma for_each_index_upt:
  assumes "for_each_index f [k..<n] ms = Inr out" "n \<le> length ms"
  shows "length out = length ms \<and>
         (\<forall>i. i < k \<or> n \<le> i \<longrightarrow> out ! i = ms ! i) \<and>
         (\<forall>i. k \<le> i \<and> i < n \<longrightarrow> f (ms ! i) = Inr (out ! i))"
  using assms
proof (induction "n - k" arbitrary: k ms)
  case 0
  then have e: "[k..<n] = []" by simp
  have "out = ms" using "0.prems"(1) unfolding e by simp
  then show ?case using 0 by auto
next
  case (Suc d)
  then have kn: "k < n" by simp
  then have upt: "[k..<n] = k # [Suc k..<n]" by (simp add: upt_conv_Cons)
  obtain m where m: "f (ms ! k) = Inr m"
    and rest: "for_each_index f [Suc k..<n] (ms[k := m]) = Inr out"
    using Suc.prems(1) unfolding upt by (auto simp: ebind_Inr)
  have d: "d = n - Suc k" using Suc.hyps(2) by simp
  have len: "n \<le> length (ms[k := m])" using Suc.prems(2) by simp
  have IH: "length out = length (ms[k := m]) \<and>
         (\<forall>i. i < Suc k \<or> n \<le> i \<longrightarrow> out ! i = (ms[k := m]) ! i) \<and>
         (\<forall>i. Suc k \<le> i \<and> i < n \<longrightarrow> f ((ms[k := m]) ! i) = Inr (out ! i))"
    using Suc.hyps(1)[OF d rest len] .
  have kl: "k < length ms" using kn Suc.prems(2) by simp
  have A: "\<forall>i. i < k \<or> n \<le> i \<longrightarrow> out ! i = ms ! i"
    using IH kn by (auto simp: nth_list_update)
  have "out ! k = m" using IH kl by simp
  then have B: "\<forall>i. k \<le> i \<and> i < n \<longrightarrow> f (ms ! i) = Inr (out ! i)"
    using IH m by (metis Suc_leI le_neq_implies_less nth_list_update_neq)
  show ?case using IH A B by simp
qed

lemma for_each_index_all:
  assumes "for_each_index f [0..<length ms] ms = Inr out"
  shows "length out = length ms \<and> (\<forall>i<length ms. f (ms ! i) = Inr (out ! i))"
  using for_each_index_upt[OF assms] by simp

lemma split_result_append:
  "X_train (split_result ms test) @ X_test (split_result ms test) = ms"
  by (simp add: split_result_def py_slice_to_def py_slice_from_def)

lemma split_result_nonempty:
  assumes "test \<noteq> []" "length ms = length train + length test"
  shows "X_train (split_result ms test) = take (length train) ms"
    and "X_test (split_result ms test) = drop (length train) ms"
  using assms by (simp_all add: split_result_def py_slice_to_def py_slice_from_def)

lemma split_result_empty:
  "X_train (split_result ms []) = []" "X_test (split_result ms []) = ms"
  by (simp_all add: split_result_def py_slice_to_def py_slice_from_def)

lemma identity_matrices_False: "identity_matrices sc train test False = Inr (train @ test)"
  by (simp add: identity_matrices_def)

lemma standardize_flat:
  assumes "standardize sc self train test = Inr r"
  shows "length (X_train r @ X_test r) = length (train @ test) \<and>
         (\<forall>i<length (train @ test).
            sc (with_mean self) (with_std self) ((train @ test) ! i)
              = Inr ((X_train r @ X_test r) ! i))"
proof -
  obtain ms where ms: "standardize_matrices sc self train test = Inr ms"
    and r: "r = split_result ms test"
    using assms by (auto simp: standardize_def ebind_Inr)
  have flat: "X_train r @ X_test r = ms" using r split_result_append by simp
  have "for_each_index (sc (with_mean self) (with_std self)) [0..<length (train @ test)]
          (train @ test) = Inr ms"
    using ms by (simp add: standardize_matrices_def Let_def)
  then show ?thesis using for_each_index_all flat by blast
qed

lemma identity_flat:
  assumes "identity sc train test centering = Inr r"
  shows "length (X_train r @ X_test r) = length (train @ test) \<and>
         (\<forall>i<length (train @ test).
            (if centering then sc centering False ((train @ test) ! i)
             else Inr ((train @ test) ! i))
              = Inr ((X_train r @ X_test r) ! i))"
proof -
  obtain ms where ms: "identity_matrices sc train test centering = Inr ms"
    and r: "r = split_result ms test"
    using assms by (auto simp: identity_def ebind_Inr)
  have flat: "X_train r @ X_test r = ms" using r split_result_append by simp
  show ?thesis
  proof (cases centering)
    case True
    then have "for_each_index (sc centering False) [0..<length (train @ test)]
          (train @ test) = Inr ms"
      using ms by (simp add: identity_matrices_def Let_def)
    then have "length ms = length (train @ test) \<and>
        (\<forall>i<length (train @ test). sc centering False ((train @ test) ! i) = Inr (ms ! i))"
      by (rule for_each_index_all)
    then show ?thesis using True flat by simp
  next
    case False
    then show ?thesis using ms flat by (simp add: identity_matrices_def)
  qed
qed

lemma normalize_flat:
  assumes "normalize_py sc nd train test order centering axis = Inr r"
  shows "length (X_train r @ X_test r) = length (train @ test) \<and>
         (\<forall>i<length (train @ test).
            ebind (sc centering False ((train @ test) ! i)) (nd order axis)
              = Inr ((X_train r @ X_test r) ! i))"
proof -
  obtain ms where ms: "normalize_matrices sc nd train test order centering axis = Inr ms"
    and r: "r = split_result ms test"
    using assms by (auto simp: normalize_py_def ebind_Inr)
  have flat: "X_train r @ X_test r = ms" using r split_result_append by simp
  have "for_each_index (\<lambda>m. ebind (sc centering False m) (nd order axis))
          [0..<length (train @ test)] (train @ test) = Inr ms"
    using ms by (simp add: normalize_matrices_def Let_def)
  then have "length ms = length (train @ test) \<and>
        (\<forall>i<length (train @ test).
           ebind (sc centering False ((train @ test) ! i)) (nd order axis) = Inr (ms ! i))"
    by (rule for_each_index_all)
  then show ?thesis using flat by simp
qed

lemma same_input_same_output:
  assumes "f x = Inr a" "f y = Inr b" "x = y"
  shows "a = b"
  using assms by (simp only: sum.inject)

lemma traverse_length: "traverse f xs = Inr ys \<Longrightarrow> length ys = length xs"
  by (induction xs arbitrary: ys) (auto simp: ebind_Inr)

lemma traverse_nth:
  "traverse f xs = Inr ys \<Longrightarrow> i < length xs \<Longrightarrow> f (xs ! i) = Inr (ys ! i)"
proof (induction xs arbitrary: ys i)
  case Nil
  then show ?case by simp
next
  case (Cons x xs)
  then obtain y ys' where y: "f x = Inr y" "traverse f xs = Inr ys'" "ys = y # ys'"
    by (auto simp: ebind_Inr)
  show ?case
  proof (cases i)
    case 0
    then show ?thesis using y by simp
  next
    case (Suc j)
    then show ?thesis using Cons.IH[OF y(2), of j] Cons.prems(2) y(3) by simp
  qed
qed

lemma split_ofI:
  assumes "length ms = length train + length test"
    and "X_train r = py_slice_to ms (- int (length test))"
    and "X_test r = py_slice_from ms (- int (length test))"
  shows "split_of ms train test r"
  using assms unfolding split_of_def
  by (auto simp: py_slice_to_def py_slice_from_def)

lemma split_of_split_result:
  "length ms = length train + length test \<Longrightarrow> split_of ms train test (split_result ms test)"
  by (rule split_ofI) (simp_all add: split_result_def)

lemma length_concat_const:
  "\<forall>l\<in>set ls. length l = n \<Longrightarrow> length (concat ls) = length ls * n"
  by (induction ls) simp_all

lemma py_range_step_length:
  assumes "py_range_step (n * step) step = Inr xs"
  shows "length xs = n"
proof -
  have s: "0 < step" using assms by (auto simp: py_range_step_def split: if_splits)
  have "xs = map (\<lambda>j. j * step) [0..<(n * step + step - 1) div step]"
    using assms s by (simp add: py_range_step_def)
  moreover have "(n * step + step - 1) div step = n"
  proof -
    obtain s' where s': "step = Suc s'" using s by (cases step) simp_all
    have "n * step + step - 1 = n * step + s'" using s' by simp
    moreover have "(n * step + s') div step = n + s' div step"
      using s by (simp only: div_mult_self3) 
    moreover have "s' div step = 0" using s' by simp
    ultimately show ?thesis by simp
  qed
  ultimately show ?thesis by simp
qed

lemma make_regressor_matrices_length:
  assumes "make_regressor_matrices conv fs self train test runs_train runs_test = Inr ms"
  shows "length ms = length train + length test"
proof -
  let ?inner = "\<lambda>(array_index, array).
     traverse (\<lambda>(i, index). model_regressor conv fs self (runs_train @ runs_test)
                 array_index array i index) (enumerate 0 (indexes self))"
  obtain nested xs where nested: "traverse ?inner (enumerate 0 (train @ test)) = Inr nested"
    and xs: "py_range_step (length (concat nested)) (length (indexes self)) = Inr xs"
    and ms: "traverse (\<lambda>x. np_hstack (take (length (indexes self)) (drop x (concat nested)))) xs
             = Inr ms"
    using assms by (auto simp: make_regressor_matrices_def Let_def ebind_Inr)
  have ln: "length nested = length train + length test"
    using traverse_length[OF nested] by simp
  have "\<forall>l\<in>set nested. length l = length (indexes self)"
  proof
    fix l assume "l \<in> set nested"
    then obtain i where i: "i < length nested" "nested ! i = l" by (auto simp: in_set_conv_nth)
    then have il: "i < length (enumerate 0 (train @ test))" using ln by simp
    have "?inner (enumerate 0 (train @ test) ! i) = Inr l"
      using traverse_nth[OF nested il] i(2) by simp
    moreover have "enumerate 0 (train @ test) ! i = (i, (train @ test) ! i)"
      using il by (simp add: nth_enumerate_eq)
    ultimately have "traverse (\<lambda>(j, index). model_regressor conv fs self
        (runs_train @ runs_test) i ((train @ test) ! i) j index) (enumerate 0 (indexes self))
        = Inr l"
      by simp
    then show "length l = length (indexes self)"
      using traverse_length by fastforce
  qed
  then have "length (concat nested) = (length train + length test) * length (indexes self)"
    using length_concat_const[of nested "length (indexes self)"] ln by simp
  then have "length xs = length train + length test"
    using xs py_range_step_length by simp
  then show ?thesis using traverse_length[OF ms] by simp
qed

lemma py_last_nonempty: "xs \<noteq> [] \<Longrightarrow> py_last xs = Inr (last xs)"
  by (simp add: py_last_def)

subsection \<open>Frame times and regressors\<close>

lemma arange_fill_exact:
  assumes t: "fl t = Val t" and k: "int k \<le> 2 ^ 53"
  shows "arange_fill (Val t) k = fl (of_nat k * t)"
proof -
  consider "k = 0" | "k = 1" | "2 \<le> k" by linarith
  then show ?thesis
  proof cases
    case 1
    then show ?thesis by (simp add: arange_fill_def fl_zero)
  next
    case 2
    then show ?thesis by (simp add: arange_fill_def t)
  next
    case 3
    then have "arange_fill (Val t) k = fadd (Val 0) (fmul (fl (of_nat k)) (fadd (Val t) (Val 0)))"
      by (simp add: arange_fill_def)
    also have "\<dots> = fadd (Val 0) (fl (of_nat k * t))"
      by (simp add: fl_of_nat[OF k] t)
    finally show ?thesis by (simp only: fadd_zero_fl)
  qed
qed

lemma frame_times_exact:
  assumes n: "nscans self run_index = Some n" and e: "exact_frames (tr self) n t"
  shows "frame_times self run_index = Inr (map (\<lambda>k. fl (of_nat k * t)) [0..<nat n])"
proof -
  have tv: "tr_value (tr self) t" and t: "fl t = Val t" and t0: "0 < t" and n0: "0 \<le> n"
    and n53: "n \<le> 2 ^ 53" and prod: "fl (of_int n * t) = Val (of_int n * t)"
    using e by (simp_all add: exact_frames_def)
  have fn: "fl (of_int n) = Val (of_int n)" using fl_of_int[of n] n0 n53 by simp
  have "\<exists>stop. py_mul n (tr self) = Inr stop \<and> as_float stop = Inr (Val (of_int n * t))"
  proof (cases "tr self")
    case (PyInt i)
    then have "t = of_int i" using tv by (simp add: tr_value_def)
    then show ?thesis using PyInt prod by (simp add: py_mul_def as_float_def py_float_def)
  next
    case (PyFloat f)
    then have "f = Val t" using tv by (simp add: tr_value_def)
    then show ?thesis
      using PyFloat prod fn by (simp add: py_mul_def as_float_def py_float_def ebind_def)
  qed
  then obtain stop where stop: "py_mul n (tr self) = Inr stop"
    "as_float stop = Inr (Val (of_int n * t))" by blast
  have step: "as_float (tr self) = Inr (Val t)"
  proof (cases "tr self")
    case (PyInt i)
    then have "t = of_int i" using tv by (simp add: tr_value_def)
    then show ?thesis using PyInt t by (simp add: as_float_def py_float_def)
  next
    case (PyFloat f)
    then show ?thesis using tv by (simp add: tr_value_def as_float_def)
  qed
  have q: "py_truediv (Val (of_int n * t)) (tr self) = Inr (Val (of_int n))"
    using step t0 fn by (simp add: py_truediv_def ebind_def)
  have "(2::int) ^ 53 \<le> 2 ^ 63" by simp
  then have len: "arange_length (Val (of_int n)) = Inr n"
    using n0 n53 by (simp add: arange_length_def)
  have fill: "map (arange_fill (Val t)) [0..<nat n] = map (\<lambda>k. fl (of_nat k * t)) [0..<nat n]"
  proof (rule map_cong[OF refl])
    fix k assume "k \<in> set [0..<nat n]"
    then have "int k \<le> 2 ^ 53" using n53 by simp
    then show "arange_fill (Val t) k = fl (of_nat k * t)" using arange_fill_exact[OF t] by blast
  qed
  have "np_arange stop (tr self) = Inr (map (\<lambda>k. fl (of_nat k * t)) [0..<nat n])"
    using stop(2) q len step fill n0
    by (simp add: np_arange_def size_exceeded_def ebind_def)
  then show ?thesis using n stop(1) by (simp add: frame_times_def py_lookup_def ebind_def)
qed






lemma example_transformer_fields:
  "tr example_transformer = PyInt 2"
  "nscans example_transformer = [''run1'' \<mapsto> 3, ''run2'' \<mapsto> 3]"
  "indexes example_transformer = [[0]]"
  "offset_type_dict example_transformer = [''run1'' \<mapsto> [''word''], ''run2'' \<mapsto> [''word'']]"
  "duration_type_dict example_transformer = [''run1'' \<mapsto> [''word''], ''run2'' \<mapsto> [''word'']]"
  "offset_path example_transformer = ''offsets''"
  "duration_path example_transformer = ''data''"
  "language example_transformer = ''english''"
  "temporal_shifting example_transformer = PyFloat (Val 0)"
  "hrf example_transformer = ''spm''"
  "oversampling example_transformer = 10"
  "with_mean example_transformer = True"
  "with_std example_transformer = True"
  by (simp_all add: example_transformer_def)



lemma example_exact_frames: "exact_frames (tr example_transformer) 3 2"
  by (simp add: exact_frames_def tr_value_def example_transformer_fields fl_numeral)

lemma example_frame_times:
  "frame_times example_transformer ''run1'' = Inr [Val 0, Val 2, Val 4]"
  "frame_times example_transformer ''run2'' = Inr [Val 0, Val 2, Val 4]"
proof -
  have "nscans example_transformer ''run1'' = Some 3" by (simp add: example_transformer_fields)
  then have "frame_times example_transformer ''run1''
      = Inr (map (\<lambda>k. fl (of_nat k * 2)) [0..<nat 3])"
    using example_exact_frames by (rule frame_times_exact)
  then show "frame_times example_transformer ''run1'' = Inr [Val 0, Val 2, Val 4]"
    by (simp add: numeral_3_eq_3 upt_rec fl_zero fl_numeral)
  have "nscans example_transformer ''run2'' = Some 3" by (simp add: example_transformer_fields)
  then have "frame_times example_transformer ''run2''
      = Inr (map (\<lambda>k. fl (of_nat k * 2)) [0..<nat 3])"
    using example_exact_frames by (rule frame_times_exact)
  then show "frame_times example_transformer ''run2'' = Inr [Val 0, Val 2, Val 4]"
    by (simp add: numeral_3_eq_3 upt_rec fl_zero fl_numeral)
qed

lemmas example_eval =
  example_files_def example_transformer_fields frame_response_def gap_frame_def nan_frame_def
  pair_frame_def
  m_a_def m_b_def m_c_def
  offsets_file_def durations_file_def os_path_join_def join_step_def os_path_exists_def
  fetch_offsets_def fetch_duration_def py_last_def ebind_def csv_column_def csv_values_def
  regressor_events_def dropna_def nrows_def column_def atleast_2d_def np_vstack_def
  width_def is_int_array_def float_rows_def np_iadd_def map_floats_def
  pd_DataFrame_def pd_concat_columns_def padded_row_def py_lookup_def
  py_slice_from_def column_regressor_def compute_regressor_def Let_def upt_rec
  fl_zero fl_one fl_numeral example_frame_times

text \<open>With a test list that is not empty, \<open>identity\<close> without centering returns its inputs.\<close>

lemma identity_nonempty_test:
  assumes "test \<noteq> []"
  shows "identity sc train test False = Inr \<lparr>X_train = train, X_test = test\<rparr>"
proof -
  have "identity sc train test False = Inr (split_result (train @ test) test)"
    by (simp add: identity_def identity_matrices_False ebind_def)
  moreover have "X_train (split_result (train @ test) test) = train"
    "X_test (split_result (train @ test) test) = test"
    using split_result_nonempty[OF assms, of "train @ test" train] by simp_all
  ultimately show ?thesis by (cases "split_result (train @ test) test") simp
qed





section \<open>Claims about the Transformer\<close>

text \<open>
  Claim C7 at a failing input: an empty test list.  \<open>len(X_test)\<close> is then \<open>0\<close> and
  \<open>-0\<close> is \<open>0\<close>, so \<open>matrices[:-0]\<close> is the empty list and \<open>matrices[-0:]\<close> the whole
  list: \<open>identity\<close> without centering returns no train matrix and returns the train
  matrices it was given as the test matrices.
\<close>

theorem identity_empty_test_list:
  "identity sc train [] False = Inr \<lparr>X_train = [], X_test = train\<rparr> \<and>
   identity sc [m_a] [] False = Inr \<lparr>X_train = [], X_test = [m_a]\<rparr>"
proof -
  have "identity sc ts [] False = Inr \<lparr>X_train = [], X_test = ts\<rparr>" for ts
    by (simp add: identity_def identity_matrices_def ebind_def split_result_def
        py_slice_to_def py_slice_from_def)
  then show ?thesis by simp
qed

text \<open>
  Claim C8.  For each of \<open>standardize\<close>, \<open>identity\<close> and \<open>normalize\<close>: take two calls
  on the same Transformer with the same parameters, whatever their train and test lists.
  If the matrices at position \<open>k\<close> of the two flattened train and test lists are equal
  and both calls return, the matrices at position \<open>k\<close> of the two flattened results are
  equal.
\<close>

theorem scaling_per_matrix:
  assumes "k < length (train1 @ test1)" "k < length (train2 @ test2)"
    and "(train1 @ test1) ! k = (train2 @ test2) ! k"
  shows "(standardize sc self train1 test1 = Inr r1 \<longrightarrow>
          standardize sc self train2 test2 = Inr r2 \<longrightarrow>
          (X_train r1 @ X_test r1) ! k = (X_train r2 @ X_test r2) ! k) \<and>
         (identity sc train1 test1 centering = Inr s1 \<longrightarrow>
          identity sc train2 test2 centering = Inr s2 \<longrightarrow>
          (X_train s1 @ X_test s1) ! k = (X_train s2 @ X_test s2) ! k) \<and>
         (normalize_py sc nd train1 test1 order centering axis = Inr n1 \<longrightarrow>
          normalize_py sc nd train2 test2 order centering axis = Inr n2 \<longrightarrow>
          (X_train n1 @ X_test n1) ! k = (X_train n2 @ X_test n2) ! k)"
proof (intro conjI impI)
  assume h: "standardize sc self train1 test1 = Inr r1" "standardize sc self train2 test2 = Inr r2"
  have "sc (with_mean self) (with_std self) ((train1 @ test1) ! k)
      = Inr ((X_train r1 @ X_test r1) ! k)"
    using standardize_flat[OF h(1)] assms(1) by blast
  moreover have "sc (with_mean self) (with_std self) ((train2 @ test2) ! k)
      = Inr ((X_train r2 @ X_test r2) ! k)"
    using standardize_flat[OF h(2)] assms(2) by blast
  ultimately show "(X_train r1 @ X_test r1) ! k = (X_train r2 @ X_test r2) ! k"
    using assms(3) by (rule same_input_same_output[where f = "sc (with_mean self) (with_std self)"])
next
  assume h: "identity sc train1 test1 centering = Inr s1"
    "identity sc train2 test2 centering = Inr s2"
  have "(if centering then sc centering False ((train1 @ test1) ! k)
         else Inr ((train1 @ test1) ! k)) = Inr ((X_train s1 @ X_test s1) ! k)"
    using identity_flat[OF h(1)] assms(1) by blast
  moreover have "(if centering then sc centering False ((train2 @ test2) ! k)
         else Inr ((train2 @ test2) ! k)) = Inr ((X_train s2 @ X_test s2) ! k)"
    using identity_flat[OF h(2)] assms(2) by blast
  ultimately show "(X_train s1 @ X_test s1) ! k = (X_train s2 @ X_test s2) ! k"
    using assms(3) by (rule same_input_same_output[where f = "\<lambda>m. if centering then sc centering False m else Inr m"])
next
  assume h: "normalize_py sc nd train1 test1 order centering axis = Inr n1"
    "normalize_py sc nd train2 test2 order centering axis = Inr n2"
  have "ebind (sc centering False ((train1 @ test1) ! k)) (nd order axis)
      = Inr ((X_train n1 @ X_test n1) ! k)"
    using normalize_flat[OF h(1)] assms(1) by blast
  moreover have "ebind (sc centering False ((train2 @ test2) ! k)) (nd order axis)
      = Inr ((X_train n2 @ X_test n2) ! k)"
    using normalize_flat[OF h(2)] assms(2) by blast
  ultimately show "(X_train n1 @ X_test n1) ! k = (X_train n2 @ X_test n2) ! k"
    using assms(3) by (rule same_input_same_output[where f = "\<lambda>m. ebind (sc centering False m) (nd order axis)"])
qed

theorem scaling_per_matrix_witness:
  "0 < length ([m_a] @ [m_b]) \<and> 0 < length ([m_a, m_c] @ []) \<and>
   ([m_a] @ [m_b]) ! 0 = ([m_a, m_c] @ []) ! 0 \<and>
   (\<exists>r1 r2. standardize shift_scaler example_transformer [m_a] [m_b] = Inr r1 \<and>
      standardize shift_scaler example_transformer [m_a, m_c] [] = Inr r2 \<and>
      (X_train r1 @ X_test r1) ! 0 = (X_train r2 @ X_test r2) ! 0) \<and>
   (\<exists>s1 s2. identity shift_scaler [m_a] [m_b] True = Inr s1 \<and>
      identity shift_scaler [m_a, m_c] [] True = Inr s2 \<and>
      (X_train s1 @ X_test s1) ! 0 = (X_train s2 @ X_test s2) ! 0) \<and>
   (\<exists>n1 n2. normalize_py shift_scaler keep_norm [m_a] [m_b] 2 True 1 = Inr n1 \<and>
      normalize_py shift_scaler keep_norm [m_a, m_c] [] 2 True 1 = Inr n2 \<and>
      (X_train n1 @ X_test n1) ! 0 = (X_train n2 @ X_test n2) ! 0)"
proof -
  have h: "0 < length ([m_a] @ [m_b])" "0 < length ([m_a, m_c] @ [])"
    "([m_a] @ [m_b]) ! 0 = ([m_a, m_c] @ []) ! 0" by simp_all
  obtain r1 r2 where r: "standardize shift_scaler example_transformer [m_a] [m_b] = Inr r1"
    "standardize shift_scaler example_transformer [m_a, m_c] [] = Inr r2"
    by (simp add: standardize_def standardize_matrices_def shift_scaler_def ebind_def
        m_a_def m_b_def m_c_def example_transformer_def upt_rec)
  obtain s1 s2 where s: "identity shift_scaler [m_a] [m_b] True = Inr s1"
    "identity shift_scaler [m_a, m_c] [] True = Inr s2"
    by (simp add: identity_def identity_matrices_def shift_scaler_def ebind_def
        m_a_def m_b_def m_c_def upt_rec)
  obtain n1 n2 where n: "normalize_py shift_scaler keep_norm [m_a] [m_b] 2 True 1 = Inr n1"
    "normalize_py shift_scaler keep_norm [m_a, m_c] [] 2 True 1 = Inr n2"
    by (simp add: normalize_py_def normalize_matrices_def shift_scaler_def keep_norm_def
        ebind_def m_a_def m_b_def m_c_def upt_rec)
  show ?thesis
    using scaling_per_matrix[OF h, of shift_scaler example_transformer r1 r2 True s1 s2
        keep_norm 2 1 n1 n2] h r s n
    by blast
qed

text \<open>
  Claim C6.  For a run identifier that is not the empty string: when the offsets file of
  an offset type, run and language does not exist, \<open>fetch_offsets\<close> raises an exception
  whose message ends with the path of the file it looked for; when the durations file of
  a duration type and run does not exist, \<open>fetch_duration\<close> raises nothing and returns
  ones, as many as its \<open>default_size\<close>; and \<open>compute_regressor\<close> passes as
  \<open>default_size\<close> the number of rows of the frame that are left once the rows with a
  missing value are dropped.
\<close>

theorem missing_offsets_and_durations:
  assumes "run_index \<noteq> []"
  shows "(fs (offsets_file opath lang otype (last run_index)) = None \<longrightarrow>
            fetch_offsets fs otype run_index opath lang
              = Inl (Exception (''Please specify an offset file at: ''
                       @ offsets_file opath lang otype (last run_index)))) \<and>
         (fs (durations_file dpath dtype (last run_index)) = None \<longrightarrow>
            fetch_duration fs dtype run_index dpath n = Inr (Arr1 (replicate n (Val 1)))) \<and>
         (fs (durations_file (duration_path self) dtype (last run_index)) = None \<longrightarrow>
          regressor_events fs self dataframe otype dtype run_index = Inr (d, offsets, duration) \<longrightarrow>
            d = dropna dataframe \<and>
            duration = Arr1 (replicate (nrows (dropna dataframe)) (Val 1)))"
proof (intro conjI impI)
  assume "fs (offsets_file opath lang otype (last run_index)) = None"
  then show "fetch_offsets fs otype run_index opath lang
              = Inl (Exception (''Please specify an offset file at: ''
                       @ offsets_file opath lang otype (last run_index)))"
    using assms
    by (simp add: fetch_offsets_def py_last_nonempty ebind_def os_path_exists_def)
next
  assume "fs (durations_file dpath dtype (last run_index)) = None"
  then show "fetch_duration fs dtype run_index dpath n = Inr (Arr1 (replicate n (Val 1)))"
    using assms
    by (simp add: fetch_duration_def py_last_nonempty ebind_def os_path_exists_def)
next
  assume none: "fs (durations_file (duration_path self) dtype (last run_index)) = None"
    and ev: "regressor_events fs self dataframe otype dtype run_index = Inr (d, offsets, duration)"
  have dur: "fetch_duration fs dtype run_index (duration_path self) (nrows (dropna dataframe))
      = Inr (Arr1 (replicate (nrows (dropna dataframe)) (Val 1)))"
    using none assms
    by (simp add: fetch_duration_def py_last_nonempty ebind_def os_path_exists_def)
  show "d = dropna dataframe"
    using ev by (auto simp: regressor_events_def Let_def ebind_Inr)
  show "duration = Arr1 (replicate (nrows (dropna dataframe)) (Val 1))"
    using ev dur by (auto simp: regressor_events_def Let_def ebind_Inr)
qed

theorem missing_offsets_and_durations_witness:
  "''run1'' \<noteq> [] \<and>
   example_files (offsets_file ''offsets'' ''english'' ''sentence'' (last ''run1'')) = None \<and>
   fetch_offsets example_files ''sentence'' ''run1'' ''offsets'' ''english''
     = Inl (Exception ''Please specify an offset file at: offsets/english/sentence_run1.csv'') \<and>
   example_files (durations_file ''data'' ''word'' (last ''run1'')) = None \<and>
   fetch_duration example_files ''word'' ''run1'' ''data'' 2 = Inr (Arr1 [Val 1, Val 1]) \<and>
   regressor_events example_files example_transformer gap_frame ''word'' ''word'' ''run1''
     = Inr (dropna gap_frame, Arr1 [Val 0, Val 2, Val 4], Arr1 [Val 1, Val 1, Val 1]) \<and>
   nrows (dropna gap_frame) = 3"
proof -
  have r: "''run1'' \<noteq> []" by simp
  have o: "example_files (offsets_file ''offsets'' ''english'' ''sentence'' (last ''run1'')) = None"
    by (simp add: example_eval)
  have d: "example_files (durations_file ''data'' ''word'' (last ''run1'')) = None"
    by (simp add: example_eval)
  have d': "example_files (durations_file (duration_path example_transformer) ''word''
      (last ''run1'')) = None"
    by (simp add: example_eval)
  have p: "offsets_file ''offsets'' ''english'' ''sentence'' (last ''run1'')
      = ''offsets/english/sentence_run1.csv''"
    by (simp add: example_eval)
  have e: "regressor_events example_files example_transformer gap_frame ''word'' ''word'' ''run1''
     = Inr (dropna gap_frame, Arr1 [Val 0, Val 2, Val 4], Arr1 [Val 1, Val 1, Val 1])"
    by (simp add: example_eval numeral_3_eq_3)
  have n: "nrows (dropna gap_frame) = 3" by (simp add: example_eval)
  show ?thesis
    using missing_offsets_and_durations[OF r, where fs = example_files
          and opath = "''offsets''" and lang = "''english''" and otype = "''sentence''"
          and dpath = "''data''" and dtype = "''word''" and n = 2]
      missing_offsets_and_durations[OF r, where fs = example_files
          and otype = "''word''" and dtype = "''word''" and self = example_transformer
          and dataframe = gap_frame and d = "dropna gap_frame"
          and offsets = "Arr1 [Val 0, Val 2, Val 4]" and duration = "Arr1 [Val 1, Val 1, Val 1]"]
      r o d d' p e n
    by (simp add: numeral_2_eq_2)
qed




text \<open>
  Claim C10.  In \<open>standardize\<close>, \<open>identity\<close>, \<open>normalize\<close> and \<open>make_regressor\<close>,
  whenever the call returns, the flattened list of transformed matrices has as many
  elements as the train and test lists together, and the result is cut from it as
  \<open>matrices[:-len(X_test)]\<close> and \<open>matrices[-len(X_test):]\<close>: with a test list that is not
  empty the returned lists are the first \<open>len(X_train)\<close> and the last \<open>len(X_test)\<close>
  matrices and have the lengths of the given lists; with an empty test list the returned
  \<open>X_train\<close> is empty and the returned \<open>X_test\<close> is the whole list of transformed
  train matrices.
\<close>

theorem returned_split:
  "(standardize sc self train1 test1 = Inr r1 \<longrightarrow>
      (\<exists>ms. standardize_matrices sc self train1 test1 = Inr ms \<and> split_of ms train1 test1 r1)) \<and>
   (identity sc train2 test2 centering2 = Inr r2 \<longrightarrow>
      (\<exists>ms. identity_matrices sc train2 test2 centering2 = Inr ms \<and>
            split_of ms train2 test2 r2)) \<and>
   (normalize_py sc nd train3 test3 order3 centering3 axis3 = Inr r3 \<longrightarrow>
      (\<exists>ms. normalize_matrices sc nd train3 test3 order3 centering3 axis3 = Inr ms \<and>
            split_of ms train3 test3 r3)) \<and>
   (make_regressor conv fs self train4 test4 runs_train4 runs_test4 = Inr r4 \<longrightarrow>
      (\<exists>ms. make_regressor_matrices conv fs self train4 test4 runs_train4 runs_test4 = Inr ms \<and>
            split_of ms train4 test4 r4))"
proof (intro conjI impI)
  assume "standardize sc self train1 test1 = Inr r1"
  then obtain ms where ms: "standardize_matrices sc self train1 test1 = Inr ms"
    and r: "r1 = split_result ms test1"
    by (auto simp: standardize_def ebind_Inr)
  have "for_each_index (sc (with_mean self) (with_std self)) [0..<length (train1 @ test1)]
          (train1 @ test1) = Inr ms"
    using ms by (simp add: standardize_matrices_def Let_def)
  then have "length ms = length train1 + length test1"
    using for_each_index_all[of _ "train1 @ test1" ms] by simp
  then show "\<exists>ms. standardize_matrices sc self train1 test1 = Inr ms \<and> split_of ms train1 test1 r1"
    using ms r split_of_split_result by blast
next
  assume "identity sc train2 test2 centering2 = Inr r2"
  then obtain ms where ms: "identity_matrices sc train2 test2 centering2 = Inr ms"
    and r: "r2 = split_result ms test2"
    by (auto simp: identity_def ebind_Inr)
  have "length ms = length train2 + length test2"
  proof (cases centering2)
    case True
    then have "for_each_index (sc centering2 False) [0..<length (train2 @ test2)]
          (train2 @ test2) = Inr ms"
      using ms by (simp add: identity_matrices_def Let_def)
    then show ?thesis using for_each_index_all[of _ "train2 @ test2" ms] by simp
  next
    case False
    then show ?thesis using ms by (auto simp: identity_matrices_def)
  qed
  then show "\<exists>ms. identity_matrices sc train2 test2 centering2 = Inr ms \<and>
      split_of ms train2 test2 r2"
    using ms r split_of_split_result by blast
next
  assume "normalize_py sc nd train3 test3 order3 centering3 axis3 = Inr r3"
  then obtain ms where ms: "normalize_matrices sc nd train3 test3 order3 centering3 axis3 = Inr ms"
    and r: "r3 = split_result ms test3"
    by (auto simp: normalize_py_def ebind_Inr)
  have "for_each_index (\<lambda>m. ebind (sc centering3 False m) (nd order3 axis3))
          [0..<length (train3 @ test3)] (train3 @ test3) = Inr ms"
    using ms by (simp add: normalize_matrices_def Let_def)
  then have "length ms = length train3 + length test3"
    using for_each_index_all[of _ "train3 @ test3" ms] by simp
  then show "\<exists>ms. normalize_matrices sc nd train3 test3 order3 centering3 axis3 = Inr ms \<and>
      split_of ms train3 test3 r3"
    using ms r split_of_split_result by blast
next
  assume "make_regressor conv fs self train4 test4 runs_train4 runs_test4 = Inr r4"
  then obtain ms where
    ms: "make_regressor_matrices conv fs self train4 test4 runs_train4 runs_test4 = Inr ms"
    and r: "r4 = \<lparr>X_train = py_slice_to ms (- int (length test4)),
            X_test = py_slice_from ms (- int (length test4)),
            run_train = runs_train4, run_test = runs_test4\<rparr>"
    by (auto simp: make_regressor_def ebind_Inr)
  have "split_of ms train4 test4 r4"
    using make_regressor_matrices_length[OF ms] r by (intro split_ofI) simp_all
  then show "\<exists>ms. make_regressor_matrices conv fs self train4 test4 runs_train4 runs_test4 = Inr ms \<and>
      split_of ms train4 test4 r4"
    using ms by blast
qed

theorem returned_split_witness:
  "(\<exists>r ms. standardize shift_scaler example_transformer [m_a] [m_b] = Inr r \<and>
       standardize_matrices shift_scaler example_transformer [m_a] [m_b] = Inr ms \<and>
       split_of ms [m_a] [m_b] r \<and> length (X_train r) = 1 \<and> length (X_test r) = 1) \<and>
   (\<exists>r ms. identity shift_scaler [m_a, m_c] [] True = Inr r \<and>
       identity_matrices shift_scaler [m_a, m_c] [] True = Inr ms \<and>
       split_of ms [m_a, m_c] [] r \<and> X_train r = [] \<and> X_test r = ms \<and> length ms = 2) \<and>
   (\<exists>r ms. normalize_py shift_scaler keep_norm [m_a] [m_b] 2 True 1 = Inr r \<and>
       normalize_matrices shift_scaler keep_norm [m_a] [m_b] 2 True 1 = Inr ms \<and>
       split_of ms [m_a] [m_b] r) \<and>
   (\<exists>r ms. make_regressor frame_response example_files example_transformer
         [m_a] [m_b] [0] [1] = Inr r \<and>
       make_regressor_matrices frame_response example_files example_transformer
         [m_a] [m_b] [0] [1] = Inr ms \<and>
       split_of ms [m_a] [m_b] r \<and> length (X_train r) = 1 \<and> length (X_test r) = 1)"
proof -
  obtain r1 where r1: "standardize shift_scaler example_transformer [m_a] [m_b] = Inr r1"
    by (simp add: standardize_def standardize_matrices_def shift_scaler_def ebind_def
        m_a_def m_b_def example_transformer_def upt_rec)
  obtain r2 where r2: "identity shift_scaler [m_a, m_c] [] True = Inr r2"
    by (simp add: identity_def identity_matrices_def shift_scaler_def ebind_def
        m_a_def m_c_def upt_rec)
  obtain r3 where r3: "normalize_py shift_scaler keep_norm [m_a] [m_b] 2 True 1 = Inr r3"
    by (simp add: normalize_py_def normalize_matrices_def shift_scaler_def keep_norm_def
        ebind_def m_a_def m_b_def upt_rec)
  obtain r4 where r4: "make_regressor frame_response example_files example_transformer
         [m_a] [m_b] [0] [1] = Inr r4"
    by (simp add: make_regressor_def make_regressor_matrices_def model_regressor_def
        select_columns_def py_index_def str_int_def str_nat.simps digit_char_def
        py_range_step_def np_hstack_def enumerate_eq_zip example_eval numeral_3_eq_3)
  show ?thesis
    using returned_split[of shift_scaler example_transformer "[m_a]" "[m_b]" r1 
        "[m_a, m_c]" "[]" True r2 keep_norm "[m_a]" "[m_b]" 2 True 1 r3
        frame_response example_files "[m_a]" "[m_b]" "[0]" "[1]" r4] r1 r2 r3 r4
    unfolding split_of_def by auto
qed

end

